theory Spec2Isabelle
  imports Main "HOL-Library.Word"
begin

unbundle bit_operations_syntax

section \<open>The trace parser of apitrace (trace\_parser.cpp)\<close>

text \<open>
  A shallow embedding of \<^verbatim>\<open>Trace::Parser\<close>. Integer widths are those of an LP64 host:
  \<^verbatim>\<open>unsigned\<close> and \<^verbatim>\<open>int\<close> have 32 bits, \<^verbatim>\<open>size_t\<close> and \<^verbatim>\<open>unsigned long long\<close> have 64 bits.
  Whatever ends the process or is undefined behaviour in C++ is a value of type \<open>error\<close>.
  Memory exhaustion is not modelled: every allocation succeeds.
\<close>

subsection \<open>Errors\<close>

datatype error =
    Unknown_event int         \<comment> \<open>\<^verbatim>\<open>exit(1)\<close> in \<^verbatim>\<open>parse_call\<close>\<close>
  | Unknown_call_detail int   \<comment> \<open>\<^verbatim>\<open>exit(1)\<close> in \<^verbatim>\<open>parse_call_details\<close>\<close>
  | Unknown_type int          \<comment> \<open>\<^verbatim>\<open>exit(1)\<close> in \<^verbatim>\<open>parse_value\<close>\<close>
  | Null_dereference          \<comment> \<open>a member call through a null \<^verbatim>\<open>Value *\<close>\<close>
  | Out_of_bounds             \<comment> \<open>a write past the end of a vector or buffer\<close>
  | Undefined_shift           \<comment> \<open>a left shift of a 64-bit value by 64 or more\<close>

subsection \<open>The byte source\<close>

type_synonym byte = "8 word"

text \<open>
  Modelled from the spec: the byte source \<^verbatim>\<open>File\<close> (trace\_file.hpp and its two
  decompressors are not part of the sources). The decompressed stream is the list of bytes
  still to come together with the number of bytes already handed out; \<^verbatim>\<open>getc\<close> gives the
  next byte as \<open>0..255\<close> or the sentinel \<open>-1\<close> at the end, \<^verbatim>\<open>read\<close> gives exactly \<open>n\<close> bytes
  or fewer at the end, and \<^verbatim>\<open>currentOffset\<close> is a position that is unique and monotone.
\<close>

record File =
  pending :: "byte list"
  consumed :: nat

definition getc :: "File \<Rightarrow> int \<times> File" where
  "getc f = (case pending f of
       [] \<Rightarrow> (- 1, f)
     | b # bs \<Rightarrow> (uint b, \<lparr>pending = bs, consumed = consumed f + 1\<rparr>))"

definition read :: "File \<Rightarrow> nat \<Rightarrow> byte list \<times> File" where
  "read f n = (take n (pending f),
     \<lparr>pending = drop n (pending f), consumed = consumed f + min n (length (pending f))\<rparr>)"

definition currentOffset :: "File \<Rightarrow> nat" where
  "currentOffset f = consumed f"

definition stream :: "byte list \<Rightarrow> File" where
  "stream bs = \<lparr>pending = bs, consumed = 0\<rparr>"

subsection \<open>Variable-length integers\<close>

text \<open>
  \<^verbatim>\<open>Parser::read_uint\<close>: the \<^verbatim>\<open>do ... while (c & 0x80)\<close> loop. The accumulator is an
  \<^verbatim>\<open>unsigned long long\<close>; shifting it by 64 or more is undefined in C++.
\<close>

function read_uint_loop :: "64 word \<Rightarrow> nat \<Rightarrow> File \<Rightarrow> error + (64 word \<times> File)" where
  "read_uint_loop val shift f =
     (case getc f of (c, f') \<Rightarrow>
        if c = - 1 then Inr (val, f')
        else if 64 \<le> shift then Inl Undefined_shift
        else
          let val' = val OR push_bit shift (word_of_int (c AND 0x7f))
          in if c AND 0x80 \<noteq> 0 then read_uint_loop val' (shift + 7) f'
             else Inr (val', f'))"
  by pat_completeness auto
termination
  by (relation "measure (\<lambda>(val, shift, f). length (pending f))")
     (auto simp: getc_def split: list.splits)

declare read_uint_loop.simps [simp del]

definition read_uint_file :: "File \<Rightarrow> error + (64 word \<times> File)" where
  "read_uint_file f = read_uint_loop 0 0 f"

text \<open>
  Modelled from the spec: the writer's side of a varint (trace\_writer.cpp is not part of
  the sources): little-endian base 128, the most significant bit of a byte says that
  another byte follows.
\<close>

function uv :: "64 word \<Rightarrow> byte list" where
  "uv u = (if u < 128 then [ucast u] else (ucast (u AND 0x7f) OR 0x80) # uv (drop_bit 7 u))"
  by pat_completeness auto
termination
proof (relation "measure unat")
  show "wf (measure (unat :: 64 word \<Rightarrow> nat))" by simp
next
  fix u :: "64 word"
  assume "\<not> u < 128"
  then have "128 \<le> unat u" by (simp add: word_less_nat_alt not_less)
  moreover have "unat (drop_bit 7 u) = unat u div 128"
    by (simp add: drop_bit_eq_div unat_div)
  ultimately show "(drop_bit 7 u, u) \<in> measure unat" by simp
qed

declare uv.simps [simp del]

subsection \<open>Signatures, values and calls\<close>

text \<open>
  The classes of trace\_model.hpp, which is not part of the sources; the fields are the ones
  the parser assigns. Counters that the parser compares with an \<^verbatim>\<open>unsigned\<close> loop variable
  are 32-bit words. A \<^verbatim>\<open>const char *\<close> made by \<^verbatim>\<open>read_string\<close> is the list of bytes that were
  read into the buffer. A pointer that may be null is an \<open>option\<close>.
\<close>

record FunctionSig =
  function_id :: "64 word"
  function_name :: "byte list"
  num_args :: "32 word"
  arg_names :: "byte list list"

record StructSig =
  struct_id :: "64 word"
  struct_name :: "byte list"
  num_members :: "32 word"
  member_names :: "byte list list"

record EnumSig =
  enum_id :: "64 word"
  enum_name :: "byte list"
  enum_value :: "64 word"

record BitmaskFlag =
  flag_name :: "byte list"
  flag_value :: "64 word"

record BitmaskSig =
  bitmask_id :: "64 word"
  num_flags :: "32 word"
  flags :: "BitmaskFlag list"

text \<open>
  Modelled from the spec: the classes of \<^verbatim>\<open>Value\<close> (trace\_model.hpp is not part of the
  sources; section 3 of the specification lists the variants). There is one variant for each
  class that the parser constructs, with what the parser passes to the constructor. The
  parser has a single class for floating-point values, \<^verbatim>\<open>Float\<close>, and constructs it from a
  \<^verbatim>\<open>float\<close> of four bytes and from a \<^verbatim>\<open>double\<close> of eight: the payload is the number passed,
  kept as the bytes that \<^verbatim>\<open>File::read\<close> stored in it, in the layout of the host. A short read
  at the end of the stream leaves fewer bytes.
\<close>

datatype Value =
    Null
  | Bool bool
  | SInt "64 word"
  | UInt "64 word"
  | Float "byte list"
  | String "byte list"
  | Enum EnumSig
  | Bitmask BitmaskSig "64 word"
  | Array "Value option list"
  | Struct StructSig "Value option list"
  | Blob "byte list"
  | Pointer "64 word"

record Call =
  no :: "32 word"
  sig :: FunctionSig
  args :: "Value option list"
  ret :: "Value option"

text \<open>
  Modelled from the spec: the constructor \<^verbatim>\<open>Call(sig)\<close> of trace\_model.hpp: a new call has
  no argument slots and no return value. The number is the one \<^verbatim>\<open>parse_enter\<close> assigns right
  after the construction.
\<close>

definition new_Call :: "FunctionSig \<Rightarrow> 32 word \<Rightarrow> Call" where
  "new_Call s n = \<lparr>no = n, sig = s, args = [], ret = None\<rparr>"

text \<open>
  What the parser takes from headers that are not part of the sources: the wire constants
  of trace\_format.hpp (compared with the \<^verbatim>\<open>int\<close> that \<^verbatim>\<open>read_byte\<close> returns) and the virtual
  method \<^verbatim>\<open>Value::toSInt\<close>. They are parameters of the model.
\<close>

record decls =
  EVENT_ENTER :: int
  EVENT_LEAVE :: int
  CALL_END :: int
  CALL_ARG :: int
  CALL_RET :: int
  TYPE_NULL :: int
  TYPE_FALSE :: int
  TYPE_TRUE :: int
  TYPE_SINT :: int
  TYPE_UINT :: int
  TYPE_FLOAT :: int
  TYPE_DOUBLE :: int
  TYPE_STRING :: int
  TYPE_ENUM :: int
  TYPE_BITMASK :: int
  TYPE_ARRAY :: int
  TYPE_STRUCT :: int
  TYPE_BLOB :: int
  TYPE_OPAQUE :: int
  toSInt :: "Value \<Rightarrow> error + 64 word"

subsection \<open>The parser state\<close>

datatype warning =
    Incomplete_call Call                 \<comment> \<open>\<^verbatim>\<open>warning: incomplete call\<close>\<close>
  | Bitmask_zero_not_first "byte list"   \<comment> \<open>\<^verbatim>\<open>warning: bitmask ... is zero but is not first flag\<close>\<close>

record Parser =
  "file" :: File
  next_call_no :: "32 word"
  version :: "64 word"
  calls :: "Call list"
  "functions" :: "FunctionSig option list"
  structs :: "StructSig option list"
  enums :: "EnumSig option list"
  bitmasks :: "BitmaskSig option list"
  m_callSigOffsets :: "nat set"
  m_structSigOffsets :: "nat set"
  m_enumSigOffsets :: "nat set"
  m_bitmaskSigOffsets :: "nat set"
  cerr :: "warning list"

text \<open>
  \<^verbatim>\<open>Parser::Parser\<close>, with the file already opened: the stream given is what follows the
  version number that \<^verbatim>\<open>open\<close> reads. \<^verbatim>\<open>open\<close> and \<^verbatim>\<open>close\<close> themselves are left out.
\<close>

definition new_Parser :: "File \<Rightarrow> Parser" where
  "new_Parser f = \<lparr>file = f, next_call_no = 0, version = 0, calls = [],
     functions = [], structs = [], enums = [], bitmasks = [],
     m_callSigOffsets = {}, m_structSigOffsets = {}, m_enumSigOffsets = {},
     m_bitmaskSigOffsets = {}, cerr = []\<rparr>"

text \<open>\<^verbatim>\<open>std::vector::resize\<close>, new slots are null.\<close>

definition resize :: "'a option list \<Rightarrow> nat \<Rightarrow> 'a option list" where
  "resize xs n = take n xs @ replicate (n - length xs) None"

text \<open>
  The template \<^verbatim>\<open>lookup\<close>; \<open>index + 1\<close> is computed in \<^verbatim>\<open>size_t\<close> and wraps. The vector is
  returned with the result because \<^verbatim>\<open>lookup\<close> may resize it.
\<close>

definition lookup :: "'a option list \<Rightarrow> 64 word \<Rightarrow> 'a option \<times> 'a option list" where
  "lookup vec index =
     (if length vec \<le> unat index then (None, resize vec (unat (index + 1)))
      else (vec ! unat index, vec))"

text \<open>An assignment \<^verbatim>\<open>v[i] = x\<close> to a vector; past the end it is undefined behaviour.\<close>

definition assign :: "'a list \<Rightarrow> nat \<Rightarrow> 'a \<Rightarrow> error + 'a list" where
  "assign xs i x = (if i < length xs then Inr (xs[i := x]) else Inl Out_of_bounds)"

definition callWithSignature :: "Parser \<Rightarrow> nat \<Rightarrow> bool" where
  "callWithSignature p offset \<longleftrightarrow> offset \<in> m_callSigOffsets p"

definition structWithSignature :: "Parser \<Rightarrow> nat \<Rightarrow> bool" where
  "structWithSignature p offset \<longleftrightarrow> offset \<in> m_structSigOffsets p"

definition enumWithSignature :: "Parser \<Rightarrow> nat \<Rightarrow> bool" where
  "enumWithSignature p offset \<longleftrightarrow> offset \<in> m_enumSigOffsets p"

definition bitmaskWithSignature :: "Parser \<Rightarrow> nat \<Rightarrow> bool" where
  "bitmaskWithSignature p offset \<longleftrightarrow> offset \<in> m_bitmaskSigOffsets p"

subsection \<open>Reading bytes, integers and strings\<close>

definition read_byte :: "Parser \<Rightarrow> int \<times> Parser" where
  "read_byte p = (case getc (file p) of (c, f) \<Rightarrow> (c, p\<lparr>file := f\<rparr>))"

definition read_uint :: "Parser \<Rightarrow> error + (64 word \<times> Parser)" where
  "read_uint p =
     (case read_uint_file (file p) of
        Inl e \<Rightarrow> Inl e
      | Inr (v, f) \<Rightarrow> Inr (v, p\<lparr>file := f\<rparr>))"

text \<open>
  \<^verbatim>\<open>Parser::read_string\<close>: the buffer has \<open>len + 1\<close> bytes, computed in \<^verbatim>\<open>size_t\<close>; the
  length handed to \<^verbatim>\<open>File::read\<close> is cast to \<^verbatim>\<open>unsigned\<close>.
\<close>

definition read_string :: "Parser \<Rightarrow> error + (byte list \<times> Parser)" where
  "read_string p =
     (case read_uint p of
        Inl e \<Rightarrow> Inl e
      | Inr (len, p1) \<Rightarrow>
          if len + 1 = 0 then Inl Out_of_bounds
          else if len \<noteq> 0 then
            (case read (file p1) (unat (ucast len :: 32 word)) of
               (bs, f) \<Rightarrow> Inr (bs, p1\<lparr>file := f\<rparr>))
          else Inr ([], p1))"

text \<open>The loops \<^verbatim>\<open>for (i = 0; i < n; ++i) ... read_string()\<close>.\<close>

fun read_strings :: "nat \<Rightarrow> Parser \<Rightarrow> error + (byte list list \<times> Parser)" where
  "read_strings 0 p = Inr ([], p)"
| "read_strings (Suc n) p =
     (case read_string p of
        Inl e \<Rightarrow> Inl e
      | Inr (s, p1) \<Rightarrow>
          (case read_strings n p1 of
             Inl e \<Rightarrow> Inl e
           | Inr (ss, p2) \<Rightarrow> Inr (s # ss, p2)))"

subsection \<open>Values without nested values\<close>

text \<open>
  \<^verbatim>\<open>parse_sint\<close> negates in \<^verbatim>\<open>signed long long\<close>; the model wraps as two's complement does.
\<close>

definition parse_sint :: "Parser \<Rightarrow> error + (Value \<times> Parser)" where
  "parse_sint p =
     (case read_uint p of Inl e \<Rightarrow> Inl e | Inr (v, p1) \<Rightarrow> Inr (SInt (- v), p1))"

definition parse_uint :: "Parser \<Rightarrow> error + (Value \<times> Parser)" where
  "parse_uint p =
     (case read_uint p of Inl e \<Rightarrow> Inl e | Inr (v, p1) \<Rightarrow> Inr (UInt v, p1))"

text \<open>\<^verbatim>\<open>float value; file->read(&value, sizeof value); return new Float(value);\<close>\<close>

definition parse_float :: "Parser \<Rightarrow> error + (Value \<times> Parser)" where
  "parse_float p = (case read (file p) 4 of (bs, f) \<Rightarrow> Inr (Float bs, p\<lparr>file := f\<rparr>))"

text \<open>\<^verbatim>\<open>double value; file->read(&value, sizeof value); return new Float(value);\<close>\<close>

definition parse_double :: "Parser \<Rightarrow> error + (Value \<times> Parser)" where
  "parse_double p = (case read (file p) 8 of (bs, f) \<Rightarrow> Inr (Float bs, p\<lparr>file := f\<rparr>))"

definition parse_string :: "Parser \<Rightarrow> error + (Value \<times> Parser)" where
  "parse_string p =
     (case read_string p of Inl e \<Rightarrow> Inl e | Inr (s, p1) \<Rightarrow> Inr (String s, p1))"

definition parse_blob :: "Parser \<Rightarrow> error + (Value \<times> Parser)" where
  "parse_blob p =
     (case read_uint p of
        Inl e \<Rightarrow> Inl e
      | Inr (sz, p1) \<Rightarrow>
          if sz \<noteq> 0 then
            (case read (file p1) (unat (ucast sz :: 32 word)) of
               (bs, f) \<Rightarrow> Inr (Blob bs, p1\<lparr>file := f\<rparr>))
          else Inr (Blob [], p1))"

definition parse_opaque :: "Parser \<Rightarrow> error + (Value \<times> Parser)" where
  "parse_opaque p =
     (case read_uint p of Inl e \<Rightarrow> Inl e | Inr (addr, p1) \<Rightarrow> Inr (Pointer addr, p1))"

subsection \<open>Bitmasks\<close>

text \<open>
  The loop of \<^verbatim>\<open>parse_bitmask\<close> that fills a new signature; \<open>first\<close> says that \<^verbatim>\<open>it == flags\<close>.
\<close>

fun read_flags :: "nat \<Rightarrow> bool \<Rightarrow> Parser \<Rightarrow> error + (BitmaskFlag list \<times> Parser)" where
  "read_flags 0 first p = Inr ([], p)"
| "read_flags (Suc n) first p =
     (case read_string p of
        Inl e \<Rightarrow> Inl e
      | Inr (name, p1) \<Rightarrow>
          (case read_uint p1 of
             Inl e \<Rightarrow> Inl e
           | Inr (v, p2) \<Rightarrow>
               let p3 = (if v = 0 \<and> \<not> first
                         then p2\<lparr>cerr := cerr p2 @ [Bitmask_zero_not_first name]\<rparr>
                         else p2)
               in (case read_flags n False p3 of
                     Inl e \<Rightarrow> Inl e
                   | Inr (fs, p4) \<Rightarrow> Inr (\<lparr>flag_name = name, flag_value = v\<rparr> # fs, p4))))"

text \<open>The loop that skips the flags of a signature that is already known.\<close>

fun skip_flags :: "nat \<Rightarrow> Parser \<Rightarrow> error + Parser" where
  "skip_flags 0 p = Inr p"
| "skip_flags (Suc n) p =
     (case read_string p of
        Inl e \<Rightarrow> Inl e
      | Inr (name, p1) \<Rightarrow>
          (case read_uint p1 of
             Inl e \<Rightarrow> Inl e
           | Inr (v, p2) \<Rightarrow> skip_flags n p2))"

text \<open>
  Lines 363 to 391 of \<^verbatim>\<open>parse_bitmask\<close>: the reference to a bitmask signature. The source
  tests \<^verbatim>\<open>if (!sig || bitmaskWithSig)\<close> and inside it \<^verbatim>\<open>if (!sig)\<close>; the case distinction
  below has the same three outcomes. In the skipping branch the count is an \<^verbatim>\<open>int\<close> compared
  with an \<^verbatim>\<open>int\<close> counter.
\<close>

definition bitmask_signature :: "Parser \<Rightarrow> error + (BitmaskSig \<times> Parser)" where
  "bitmask_signature p =
     (case read_uint p of
        Inl e \<Rightarrow> Inl e
      | Inr (id', p1) \<Rightarrow>
          (case lookup (bitmasks p1) id' of
             (sig', tbl) \<Rightarrow>
               let p2 = p1\<lparr>bitmasks := tbl\<rparr>;
                   offset = currentOffset (file p2);
                   bitmaskWithSig = bitmaskWithSignature p2 offset
               in (case sig' of
                     None \<Rightarrow>
                       (case read_uint p2 of
                          Inl e \<Rightarrow> Inl e
                        | Inr (n, p3) \<Rightarrow>
                            (case read_flags (unat (ucast n :: 32 word)) True p3 of
                               Inl e \<Rightarrow> Inl e
                             | Inr (fs, p4) \<Rightarrow>
                                 let s = \<lparr>bitmask_id = id', num_flags = ucast n, flags = fs\<rparr>
                                 in (case assign (bitmasks p4) (unat id') (Some s) of
                                       Inl e \<Rightarrow> Inl e
                                     | Inr tbl' \<Rightarrow>
                                         Inr (s, p4\<lparr>bitmasks := tbl',
                                           m_bitmaskSigOffsets :=
                                             insert offset (m_bitmaskSigOffsets p4)\<rparr>))))
                   | Some s \<Rightarrow>
                       if bitmaskWithSig then
                         (case read_uint p2 of
                            Inl e \<Rightarrow> Inl e
                          | Inr (n, p3) \<Rightarrow>
                              (case skip_flags (nat (sint (ucast n :: 32 word))) p3 of
                                 Inl e \<Rightarrow> Inl e
                               | Inr p4 \<Rightarrow> Inr (s, p4)))
                       else Inr (s, p2))))"

definition parse_bitmask :: "Parser \<Rightarrow> error + (Value \<times> Parser)" where
  "parse_bitmask p =
     (case bitmask_signature p of
        Inl e \<Rightarrow> Inl e
      | Inr (s, p1) \<Rightarrow>
          (case read_uint p1 of
             Inl e \<Rightarrow> Inl e
           | Inr (v, p2) \<Rightarrow> Inr (Bitmask s v, p2)))"

subsection \<open>Struct signatures\<close>

text \<open>Lines 420 to 446 of \<^verbatim>\<open>parse_struct\<close>: the reference to a struct signature.\<close>

definition struct_signature :: "Parser \<Rightarrow> error + (StructSig \<times> Parser)" where
  "struct_signature p =
     (case read_uint p of
        Inl e \<Rightarrow> Inl e
      | Inr (id', p1) \<Rightarrow>
          (case lookup (structs p1) id' of
             (sig', tbl) \<Rightarrow>
               let p2 = p1\<lparr>structs := tbl\<rparr>;
                   offset = currentOffset (file p2);
                   structWithSig = structWithSignature p2 offset
               in (case sig' of
                     None \<Rightarrow>
                       (case read_string p2 of
                          Inl e \<Rightarrow> Inl e
                        | Inr (name, p3) \<Rightarrow>
                            (case read_uint p3 of
                               Inl e \<Rightarrow> Inl e
                             | Inr (n, p4) \<Rightarrow>
                                 (case read_strings (unat (ucast n :: 32 word)) p4 of
                                    Inl e \<Rightarrow> Inl e
                                  | Inr (names, p5) \<Rightarrow>
                                      let s = \<lparr>struct_id = id', struct_name = name,
                                               num_members = ucast n, member_names = names\<rparr>
                                      in (case assign (structs p5) (unat id') (Some s) of
                                            Inl e \<Rightarrow> Inl e
                                          | Inr tbl' \<Rightarrow>
                                              Inr (s, p5\<lparr>structs := tbl',
                                                m_structSigOffsets :=
                                                  insert offset (m_structSigOffsets p5)\<rparr>)))))
                   | Some s \<Rightarrow>
                       if structWithSig then
                         (case read_string p2 of
                            Inl e \<Rightarrow> Inl e
                          | Inr (name, p3) \<Rightarrow>
                              (case read_uint p3 of
                                 Inl e \<Rightarrow> Inl e
                               | Inr (n, p4) \<Rightarrow>
                                   (case read_strings (unat (ucast n :: 32 word)) p4 of
                                      Inl e \<Rightarrow> Inl e
                                    | Inr (names, p5) \<Rightarrow> Inr (s, p5))))
                       else Inr (s, p2))))"

subsection \<open>What every parsing step leaves alone\<close>

text \<open>
  Below \<^verbatim>\<open>parse_enter\<close> and \<^verbatim>\<open>parse_leave\<close> no function touches the pending calls or the
  call counter, and the number of bytes still to come never grows. The recursive value
  parser and the loops over events terminate for the latter reason.
\<close>

definition remaining :: "Parser \<Rightarrow> nat" where
  "remaining p = length (pending (file p))"

definition advances :: "Parser \<Rightarrow> Parser \<Rightarrow> bool" where
  "advances p p' \<longleftrightarrow>
     remaining p' \<le> remaining p \<and> calls p' = calls p \<and> next_call_no p' = next_call_no p"

lemma advances_refl [simp]: "advances p p"
  by (simp add: advances_def)

lemma advances_trans: "advances p q \<Longrightarrow> advances q r \<Longrightarrow> advances p r"
  by (simp add: advances_def)

lemma advances_remaining: "advances p p' \<Longrightarrow> remaining p' \<le> remaining p"
  by (simp add: advances_def)

lemma advances_calls: "advances p p' \<Longrightarrow> calls p' = calls p"
  by (simp add: advances_def)

lemma advances_next_call_no: "advances p p' \<Longrightarrow> next_call_no p' = next_call_no p"
  by (simp add: advances_def)

lemma advances_tables [simp]:
  "advances p (q\<lparr>bitmasks := a\<rparr>) = advances p q"
  "advances p (q\<lparr>structs := b\<rparr>) = advances p q"
  "advances p (q\<lparr>enums := c\<rparr>) = advances p q"
  "advances p (q\<lparr>functions := d\<rparr>) = advances p q"
  "advances p (q\<lparr>m_bitmaskSigOffsets := e\<rparr>) = advances p q"
  "advances p (q\<lparr>m_structSigOffsets := f\<rparr>) = advances p q"
  "advances p (q\<lparr>m_enumSigOffsets := g\<rparr>) = advances p q"
  "advances p (q\<lparr>m_callSigOffsets := h\<rparr>) = advances p q"
  "advances p (q\<lparr>cerr := i\<rparr>) = advances p q"
  "advances (p\<lparr>bitmasks := a\<rparr>) q = advances p q"
  "advances (p\<lparr>structs := b\<rparr>) q = advances p q"
  "advances (p\<lparr>enums := c\<rparr>) q = advances p q"
  "advances (p\<lparr>functions := d\<rparr>) q = advances p q"
  "advances (p\<lparr>cerr := i\<rparr>) q = advances p q"
  by (simp_all add: advances_def remaining_def)

lemma remaining_other [simp]:
  "remaining (p\<lparr>calls := j\<rparr>) = remaining p"
  "remaining (p\<lparr>next_call_no := k\<rparr>) = remaining p"
  "remaining (p\<lparr>cerr := i\<rparr>) = remaining p"
  by (simp_all add: remaining_def)

lemma uint_byte_not_eof: "uint (b :: byte) \<noteq> - 1"
  using uint_ge_0 [of b] by linarith

lemma getc_le: "getc f = (c, f') \<Longrightarrow> length (pending f') \<le> length (pending f)"
  by (auto simp: getc_def split: list.splits)

lemma getc_less:
  "getc f = (c, f') \<Longrightarrow> c \<noteq> - 1 \<Longrightarrow> length (pending f') < length (pending f)"
  by (auto simp: getc_def split: list.splits)

lemma read_uint_loop_le:
  "read_uint_loop v sh f = Inr (v', f') \<Longrightarrow> length (pending f') \<le> length (pending f)"
proof (induction v sh f rule: read_uint_loop.induct)
  case (1 val shift f)
  obtain c f1 where g: "getc f = (c, f1)" by (cases "getc f")
  show ?case
  proof (cases "c = - 1 \<or> 64 \<le> shift \<or> c AND 0x80 = 0")
    case True
    with "1.prems" g getc_le [OF g] show ?thesis
      by (auto simp: read_uint_loop.simps [of val shift f] Let_def split: if_splits)
  next
    case False
    with "1.prems" g
    have "read_uint_loop (val OR push_bit shift (word_of_int (c AND 0x7f))) (shift + 7) f1
        = Inr (v', f')"
      by (simp add: read_uint_loop.simps [of val shift f] Let_def)
    with "1.IH" [OF g [symmetric]] False have "length (pending f') \<le> length (pending f1)"
      by (simp add: Let_def)
    with getc_le [OF g] show ?thesis by simp
  qed
qed

lemma read_byte_adv: "read_byte p = (c, p') \<Longrightarrow> advances p p'"
  by (auto simp: read_byte_def advances_def remaining_def split: prod.splits dest: getc_le)

lemma read_byte_less: "read_byte p = (c, p') \<Longrightarrow> c \<noteq> - 1 \<Longrightarrow> remaining p' < remaining p"
  by (auto simp: read_byte_def remaining_def split: prod.splits dest: getc_less)

lemma read_uint_adv: "read_uint p = Inr (v, p') \<Longrightarrow> advances p p'"
  by (auto simp: read_uint_def read_uint_file_def advances_def remaining_def
      split: sum.splits dest: read_uint_loop_le)

lemma read_string_adv: "read_string p = Inr (s, p') \<Longrightarrow> advances p p'"
  by (auto simp: read_string_def advances_def remaining_def read_def
      split: sum.splits if_splits prod.splits dest!: read_uint_adv)

lemma read_strings_adv: "read_strings n p = Inr (ss, p') \<Longrightarrow> advances p p'"
proof (induction n arbitrary: p ss)
  case 0
  then show ?case by simp
next
  case (Suc n)
  from Suc.prems obtain s p1 ss' where
    a: "read_string p = Inr (s, p1)" and b: "read_strings n p1 = Inr (ss', p')"
    by (auto split: sum.splits)
  from read_string_adv [OF a] Suc.IH [OF b] show ?case by (rule advances_trans)
qed

lemma read_flags_adv: "read_flags n b p = Inr (fs, p') \<Longrightarrow> advances p p'"
proof (induction n arbitrary: p b fs)
  case 0
  then show ?case by simp
next
  case (Suc n)
  let ?warn = "\<lambda>name v p2. if v = 0 \<and> \<not> b
    then p2\<lparr>cerr := cerr p2 @ [Bitmask_zero_not_first name]\<rparr> else p2"
  from Suc.prems obtain name p1 v p2 fs' where
    a: "read_string p = Inr (name, p1)" and b: "read_uint p1 = Inr (v, p2)"
    and c: "read_flags n False (?warn name v p2) = Inr (fs', p')"
    by (auto simp: Let_def split: sum.splits)
  have "advances p2 (?warn name v p2)" by simp
  with read_string_adv [OF a] read_uint_adv [OF b] Suc.IH [OF c] show ?case
    by (blast intro: advances_trans)
qed

lemma skip_flags_adv: "skip_flags n p = Inr p' \<Longrightarrow> advances p p'"
proof (induction n arbitrary: p)
  case 0
  then show ?case by simp
next
  case (Suc n)
  from Suc.prems obtain name p1 v p2 where
    a: "read_string p = Inr (name, p1)" and b: "read_uint p1 = Inr (v, p2)"
    and c: "skip_flags n p2 = Inr p'"
    by (auto split: sum.splits)
  from read_string_adv [OF a] read_uint_adv [OF b] Suc.IH [OF c] show ?case
    by (blast intro: advances_trans)
qed

lemma bitmask_signature_adv:
  assumes "bitmask_signature p = Inr (s, p')"
  shows "advances p p'"
proof -
  from assms obtain i p1 where ru: "read_uint p = Inr (i, p1)"
    by (auto simp: bitmask_signature_def split: sum.splits)
  obtain sg tbl where lk: "lookup (bitmasks p1) i = (sg, tbl)"
    by (cases "lookup (bitmasks p1) i")
  define p2 where "p2 = p1\<lparr>bitmasks := tbl\<rparr>"
  have a2: "advances p p2"
    using read_uint_adv [OF ru] by (simp add: p2_def)
  note run = assms [unfolded bitmask_signature_def ru, simplified, unfolded lk, simplified, folded p2_def]
  have "advances p2 p'"
  proof (cases sg)
    case None
    with run obtain n p3 fs p4 tbl' where
      b: "read_uint p2 = Inr (n, p3)"
      and c: "read_flags (unat (ucast n :: 32 word)) True p3 = Inr (fs, p4)"
      and d: "p' = p4\<lparr>bitmasks := tbl',
        m_bitmaskSigOffsets := insert (currentOffset (file p1)) (m_bitmaskSigOffsets p4)\<rparr>"
      by (auto simp: Let_def split: sum.splits)
    from read_uint_adv [OF b] read_flags_adv [OF c] have "advances p2 p4"
      by (rule advances_trans)
    with d show ?thesis by simp
  next
    case (Some s')
    show ?thesis
    proof (cases "bitmaskWithSignature p2 (currentOffset (file p1))")
      case True
      with run Some obtain n p3 where
        b: "read_uint p2 = Inr (n, p3)"
        and c: "skip_flags (nat (sint (ucast n :: 32 word))) p3 = Inr p'"
        by (auto simp: Let_def split: sum.splits)
      from read_uint_adv [OF b] skip_flags_adv [OF c] show ?thesis
        by (rule advances_trans)
    next
      case False
      with run Some show ?thesis by (simp add: Let_def)
    qed
  qed
  with a2 show ?thesis by (rule advances_trans)
qed

lemma named_list_adv:
  assumes "read_string p2 = Inr (name, p3)" and "read_uint p3 = Inr (n, p4)"
    and "read_strings k p4 = Inr (names, p5)"
  shows "advances p2 p5"
  using read_string_adv [OF assms(1)] read_uint_adv [OF assms(2)] read_strings_adv [OF assms(3)]
  by (blast intro: advances_trans)

lemma struct_signature_adv:
  assumes "struct_signature p = Inr (s, p')"
  shows "advances p p'"
proof -
  from assms obtain i p1 where ru: "read_uint p = Inr (i, p1)"
    by (auto simp: struct_signature_def split: sum.splits)
  obtain sg tbl where lk: "lookup (structs p1) i = (sg, tbl)"
    by (cases "lookup (structs p1) i")
  define p2 where "p2 = p1\<lparr>structs := tbl\<rparr>"
  have a2: "advances p p2"
    using read_uint_adv [OF ru] by (simp add: p2_def)
  note run = assms [unfolded struct_signature_def ru, simplified, unfolded lk, simplified, folded p2_def]
  have "advances p2 p'"
  proof (cases sg)
    case None
    with run obtain name p3 n p4 names p5 tbl' where
      b: "read_string p2 = Inr (name, p3)" "read_uint p3 = Inr (n, p4)"
        "read_strings (unat (ucast n :: 32 word)) p4 = Inr (names, p5)"
      and d: "p' = p5\<lparr>structs := tbl',
        m_structSigOffsets := insert (currentOffset (file p1)) (m_structSigOffsets p5)\<rparr>"
      by (auto simp: Let_def split: sum.splits)
    from named_list_adv [OF b] d show ?thesis by simp
  next
    case (Some s')
    show ?thesis
    proof (cases "structWithSignature p2 (currentOffset (file p1))")
      case True
      with run Some obtain name p3 n p4 names where
        b: "read_string p2 = Inr (name, p3)" "read_uint p3 = Inr (n, p4)"
          "read_strings (unat (ucast n :: 32 word)) p4 = Inr (names, p')"
        by (auto simp: Let_def split: sum.splits)
      from named_list_adv [OF b] show ?thesis .
    next
      case False
      with run Some show ?thesis by (simp add: Let_def)
    qed
  qed
  with a2 show ?thesis by (rule advances_trans)
qed

lemma read_adv: "read (file p) n = (bs, f) \<Longrightarrow> advances p (p\<lparr>file := f\<rparr>)"
  by (auto simp: read_def advances_def remaining_def)

lemma plain_value_adv:
  "parse_sint p = Inr (v, p') \<Longrightarrow> advances p p'"
  "parse_uint p = Inr (v, p') \<Longrightarrow> advances p p'"
  "parse_float p = Inr (v, p') \<Longrightarrow> advances p p'"
  "parse_double p = Inr (v, p') \<Longrightarrow> advances p p'"
  "parse_string p = Inr (v, p') \<Longrightarrow> advances p p'"
  "parse_blob p = Inr (v, p') \<Longrightarrow> advances p p'"
  "parse_opaque p = Inr (v, p') \<Longrightarrow> advances p p'"
  "parse_bitmask p = Inr (v, p') \<Longrightarrow> advances p p'"
  by (auto simp: parse_sint_def parse_uint_def parse_float_def parse_double_def parse_string_def
      parse_blob_def parse_opaque_def parse_bitmask_def
      split: sum.splits prod.splits if_splits
      dest!: read_uint_adv read_string_adv bitmask_signature_adv read_adv
      intro: advances_trans)

subsection \<open>The recursive value parser\<close>

text \<open>
  \<^verbatim>\<open>parse_value\<close> with \<^verbatim>\<open>parse_enum\<close>, \<^verbatim>\<open>parse_array\<close> and \<^verbatim>\<open>parse_struct\<close>. The labels of a
  \<^verbatim>\<open>switch\<close> are distinct, so the order of the tests does not matter in C++; the test for the
  end of the stream comes first here, so that the function is total for every choice of
  constants. \<open>parse_values n\<close> is the loop \<^verbatim>\<open>for (i = 0; i < n; ++i) ...[i] = parse_value()\<close> of
  arrays and structs.
\<close>

definition non_null :: "error + (Value \<times> Parser) \<Rightarrow> error + (Value option \<times> Parser)" where
  "non_null r = (case r of Inl e \<Rightarrow> Inl e | Inr (v, p) \<Rightarrow> Inr (Some v, p))"

function parse_value :: "decls \<Rightarrow> Parser \<Rightarrow> error + (Value option \<times> Parser)"
  and parse_values :: "decls \<Rightarrow> nat \<Rightarrow> Parser \<Rightarrow> error + (Value option list \<times> Parser)"
  and parse_enum :: "decls \<Rightarrow> Parser \<Rightarrow> error + (Value \<times> Parser)"
  and parse_array :: "decls \<Rightarrow> Parser \<Rightarrow> error + (Value \<times> Parser)"
  and parse_struct :: "decls \<Rightarrow> Parser \<Rightarrow> error + (Value \<times> Parser)"
where
  "parse_value d p =
     (case read_byte p of
        (c, p1) \<Rightarrow>
          if c = - 1 then Inr (None, p1)
          else if c = TYPE_NULL d then Inr (Some Null, p1)
          else if c = TYPE_FALSE d then Inr (Some (Bool False), p1)
          else if c = TYPE_TRUE d then Inr (Some (Bool True), p1)
          else if c = TYPE_SINT d then non_null (parse_sint p1)
          else if c = TYPE_UINT d then non_null (parse_uint p1)
          else if c = TYPE_FLOAT d then non_null (parse_float p1)
          else if c = TYPE_DOUBLE d then non_null (parse_double p1)
          else if c = TYPE_STRING d then non_null (parse_string p1)
          else if c = TYPE_ENUM d then
            (case parse_enum d p1 of Inl e \<Rightarrow> Inl e | Inr (v, p2) \<Rightarrow> Inr (Some v, p2))
          else if c = TYPE_BITMASK d then non_null (parse_bitmask p1)
          else if c = TYPE_ARRAY d then
            (case parse_array d p1 of Inl e \<Rightarrow> Inl e | Inr (v, p2) \<Rightarrow> Inr (Some v, p2))
          else if c = TYPE_STRUCT d then
            (case parse_struct d p1 of Inl e \<Rightarrow> Inl e | Inr (v, p2) \<Rightarrow> Inr (Some v, p2))
          else if c = TYPE_BLOB d then non_null (parse_blob p1)
          else if c = TYPE_OPAQUE d then non_null (parse_opaque p1)
          else Inl (Unknown_type c))"
| "parse_values d n p =
     (if n = 0 then Inr ([], p)
      else
        (case parse_value d p of
           Inl e \<Rightarrow> Inl e
         | Inr (v, p1) \<Rightarrow>
             (case parse_values d (n - 1) p1 of
                Inl e \<Rightarrow> Inl e
              | Inr (vs, p2) \<Rightarrow> Inr (v # vs, p2))))"
| "parse_enum d p =
     (case read_uint p of
        Inl e \<Rightarrow> Inl e
      | Inr (id', p1) \<Rightarrow>
          (case lookup (enums p1) id' of
             (sig', tbl) \<Rightarrow>
               let p2 = p1\<lparr>enums := tbl\<rparr>;
                   offset = currentOffset (file p2);
                   enumWithSig = enumWithSignature p2 offset
               in (case sig' of
                     None \<Rightarrow>
                       (case read_string p2 of
                          Inl e \<Rightarrow> Inl e
                        | Inr (name, p3) \<Rightarrow>
                            (case parse_value d p3 of
                               Inl e \<Rightarrow> Inl e
                             | Inr (None, p4) \<Rightarrow> Inl Null_dereference
                             | Inr (Some v, p4) \<Rightarrow>
                                 (case toSInt d v of
                                    Inl e \<Rightarrow> Inl e
                                  | Inr n \<Rightarrow>
                                      let s = \<lparr>enum_id = id', enum_name = name, enum_value = n\<rparr>
                                      in (case assign (enums p4) (unat id') (Some s) of
                                            Inl e \<Rightarrow> Inl e
                                          | Inr tbl' \<Rightarrow>
                                              Inr (Enum s, p4\<lparr>enums := tbl',
                                                m_enumSigOffsets :=
                                                  insert offset (m_enumSigOffsets p4)\<rparr>)))))
                   | Some s \<Rightarrow>
                       if enumWithSig then
                         (case read_string p2 of
                            Inl e \<Rightarrow> Inl e
                          | Inr (name, p3) \<Rightarrow>
                              (case parse_value d p3 of
                                 Inl e \<Rightarrow> Inl e
                               | Inr (v, p4) \<Rightarrow> Inr (Enum s, p4)))
                       else Inr (Enum s, p2))))"
| "parse_array d p =
     (case read_uint p of
        Inl e \<Rightarrow> Inl e
      | Inr (len, p1) \<Rightarrow>
          (case parse_values d (unat len) p1 of
             Inl e \<Rightarrow> Inl e
           | Inr (vs, p2) \<Rightarrow> Inr (Array vs, p2)))"
| "parse_struct d p =
     (case struct_signature p of
        Inl e \<Rightarrow> Inl e
      | Inr (s, p1) \<Rightarrow>
          (case parse_values d (unat (num_members s)) p1 of
             Inl e \<Rightarrow> Inl e
           | Inr (vs, p2) \<Rightarrow> Inr (Struct s vs, p2)))"
  by pat_completeness auto

text \<open>
  Termination: a nested value starts after its tag byte, so that fewer bytes are left; the
  loop over \<open>n\<close> values counts down.
\<close>

lemma non_null_Inr: "non_null r = Inr (v, p') \<Longrightarrow> \<exists>w. r = Inr (w, p')"
  by (auto simp: non_null_def split: sum.splits)

lemma parse_value_dom_adv:
  shows "parse_value_parse_values_parse_enum_parse_array_parse_struct_dom (Inl (Inl (d, p))) \<Longrightarrow>
      (\<forall>v p'. parse_value d p = Inr (v, p') \<longrightarrow> advances p p')"
    and "parse_value_parse_values_parse_enum_parse_array_parse_struct_dom (Inl (Inr (d, n, p))) \<Longrightarrow>
      (\<forall>vs p'. parse_values d n p = Inr (vs, p') \<longrightarrow> advances p p')"
    and "parse_value_parse_values_parse_enum_parse_array_parse_struct_dom (Inr (Inl (d, p))) \<Longrightarrow>
      (\<forall>v p'. parse_enum d p = Inr (v, p') \<longrightarrow> advances p p')"
    and "parse_value_parse_values_parse_enum_parse_array_parse_struct_dom (Inr (Inr (Inl (d, p)))) \<Longrightarrow>
      (\<forall>v p'. parse_array d p = Inr (v, p') \<longrightarrow> advances p p')"
    and "parse_value_parse_values_parse_enum_parse_array_parse_struct_dom (Inr (Inr (Inr (d, p)))) \<Longrightarrow>
      (\<forall>v p'. parse_struct d p = Inr (v, p') \<longrightarrow> advances p p')"
proof (induct rule: parse_value_parse_values_parse_enum_parse_array_parse_struct.pinduct)
  case (1 d p)
  obtain c p1 where rb: "read_byte p = (c, p1)" by (cases "read_byte p")
  note a1 = read_byte_adv [OF rb]
  show ?case
  proof (intro allI impI)
    fix v p'
    assume a: "parse_value d p = Inr (v, p')"
    have "advances p1 p'"
      using a rb "1.hyps"(2-4) [OF rb [symmetric]]
      by (auto simp: parse_value.psimps [OF "1.hyps"(1)] split: if_splits sum.splits
          dest!: non_null_Inr dest: plain_value_adv)
    with a1 show "advances p p'" by (rule advances_trans)
  qed
next
  case (2 d n p)
  show ?case
  proof (intro allI impI)
    fix vs p'
    assume a: "parse_values d n p = Inr (vs, p')"
    show "advances p p'"
    proof (cases "n = 0")
      case True
      with a parse_values.psimps [OF "2.hyps"(1)] show ?thesis by simp
    next
      case False
      from a False obtain v p1 vs' where
        b: "parse_value d p = Inr (v, p1)" and c: "parse_values d (n - 1) p1 = Inr (vs', p')"
        by (auto simp: parse_values.psimps [OF "2.hyps"(1)] split: sum.splits)
      from "2.hyps"(2) [OF False] b have "advances p p1" by blast
      moreover from "2.hyps"(3) [OF False b refl] c have "advances p1 p'" by blast
      ultimately show ?thesis by (rule advances_trans)
    qed
  qed
next
  case (3 d p)
  show ?case
  proof (intro allI impI)
    fix v p'
    assume a: "parse_enum d p = Inr (v, p')"
    from a obtain i p1 where ru: "read_uint p = Inr (i, p1)"
      by (auto simp: parse_enum.psimps [OF "3.hyps"(1)] split: sum.splits)
    obtain sg tbl where lk: "lookup (enums p1) i = (sg, tbl)"
      by (cases "lookup (enums p1) i")
    define p2 where "p2 = p1\<lparr>enums := tbl\<rparr>"
    have a2: "advances p p2"
      using read_uint_adv [OF ru] by (simp add: p2_def)
    show "advances p p'"
    proof (cases "sg = None \<or> enumWithSignature p2 (currentOffset (file p2))")
      case False
      with a ru lk have "p' = p2"
        by (auto simp: parse_enum.psimps [OF "3.hyps"(1)] Let_def p2_def)
      with a2 show ?thesis by simp
    next
      case True
      with a ru lk obtain name p3 w p4 where
        rs: "read_string p2 = Inr (name, p3)" and pv: "parse_value d p3 = Inr (w, p4)"
        and eq: "advances p4 p'"
        by (auto simp: parse_enum.psimps [OF "3.hyps"(1)] Let_def p2_def
            split: sum.splits option.splits if_splits)
      have "\<forall>v p'. parse_value d p3 = Inr (v, p') \<longrightarrow> advances p3 p'"
      proof (cases sg)
        case None
        show ?thesis
          by (rule "3.hyps"(2) [OF ru refl lk [symmetric] p2_def refl refl None rs refl])
      next
        case (Some s)
        with True have w: "enumWithSignature p2 (currentOffset (file p2))" by simp
        show ?thesis
          by (rule "3.hyps"(3) [OF ru refl lk [symmetric] p2_def refl refl Some w rs refl])
      qed
      with pv have "advances p3 p4" by blast
      with a2 read_string_adv [OF rs] eq show ?thesis by (blast intro: advances_trans)
    qed
  qed
next
  case (4 d p)
  show ?case
  proof (intro allI impI)
    fix v p'
    assume a: "parse_array d p = Inr (v, p')"
    then obtain len p1 vs where ru: "read_uint p = Inr (len, p1)"
      and pv: "parse_values d (unat len) p1 = Inr (vs, p')"
      by (auto simp: parse_array.psimps [OF "4.hyps"(1)] split: sum.splits)
    from "4.hyps"(2) [OF ru refl] pv have "advances p1 p'" by blast
    with read_uint_adv [OF ru] show "advances p p'" by (rule advances_trans)
  qed
next
  case (5 d p)
  show ?case
  proof (intro allI impI)
    fix v p'
    assume a: "parse_struct d p = Inr (v, p')"
    then obtain s p1 vs where ss: "struct_signature p = Inr (s, p1)"
      and pv: "parse_values d (unat (num_members s)) p1 = Inr (vs, p')"
      by (auto simp: parse_struct.psimps [OF "5.hyps"(1)] split: sum.splits)
    from "5.hyps"(2) [OF ss refl] pv have "advances p1 p'" by blast
    with struct_signature_adv [OF ss] show "advances p p'" by (rule advances_trans)
  qed
qed

definition pv_measure ::
  "(decls \<times> Parser + decls \<times> nat \<times> Parser) + decls \<times> Parser + decls \<times> Parser + decls \<times> Parser
    \<Rightarrow> nat \<times> nat \<times> nat" where
  "pv_measure x = (case x of
      Inl (Inl (d, p)) \<Rightarrow> (remaining p, 0, 0)
    | Inl (Inr (d, n, p)) \<Rightarrow> (remaining p, 1, n)
    | Inr (Inl (d, p)) \<Rightarrow> (remaining p, 2, 0)
    | Inr (Inr (Inl (d, p))) \<Rightarrow> (remaining p, 2, 0)
    | Inr (Inr (Inr (d, p))) \<Rightarrow> (remaining p, 2, 0))"

lemma parse_value_total:
  "All parse_value_parse_values_parse_enum_parse_array_parse_struct_dom"
proof (relation "inv_image (less_than <*lex*> less_than <*lex*> less_than) pv_measure",
    goal_cases)
  case 1
  show ?case by (intro wf_inv_image wf_lex_prod wf_less_than)
next
  case (2 d p x y)
  from read_byte_less [OF 2(1) [symmetric] 2(2)] show ?case by (simp add: pv_measure_def)
next
  case (3 d p x y)
  from read_byte_less [OF 3(1) [symmetric] 3(2)] show ?case by (simp add: pv_measure_def)
next
  case (4 d p x y)
  from read_byte_less [OF 4(1) [symmetric] 4(2)] show ?case by (simp add: pv_measure_def)
next
  case (5 d n p)
  then show ?case by (simp add: pv_measure_def)
next
  case (6 d n p b x y)
  then have "parse_value d p = Inr (x, y)" by simp
  with parse_value_dom_adv(1) [OF 6(4)] have "remaining y \<le> remaining p"
    by (blast dest: advances_remaining)
  with 6(1) show ?case by (auto simp: pv_measure_def)
next
  case (7 d p b x y xa ya xb xc xd ba xaa yb)
  then have "read_uint p = Inr (x, y)" "read_string xb = Inr (xaa, yb)" by simp_all
  from read_uint_adv [OF this(1)] read_string_adv [OF this(2)] 7(4)
  show ?case by (auto simp: pv_measure_def advances_def remaining_def)
next
  case (8 d p b x y xa ya xb xc xd x2 ba xe yb)
  then have "read_uint p = Inr (x, y)" "read_string xb = Inr (xe, yb)" by simp_all
  from read_uint_adv [OF this(1)] read_string_adv [OF this(2)] 8(4)
  show ?case by (auto simp: pv_measure_def advances_def remaining_def)
next
  case (9 d p b x y)
  then have "read_uint p = Inr (x, y)" by simp
  from read_uint_adv [OF this] show ?case by (auto simp: pv_measure_def advances_def)
next
  case (10 d p b x y)
  then have "struct_signature p = Inr (x, y)" by simp
  from struct_signature_adv [OF this] show ?case by (auto simp: pv_measure_def advances_def)
qed

termination parse_value
  by (rule parse_value_total)

lemma parse_value_adv: "parse_value d p = Inr (v, p') \<Longrightarrow> advances p p'"
  using parse_value_dom_adv(1) [of d p] parse_value_total by blast

lemma parse_values_adv: "parse_values d n p = Inr (vs, p') \<Longrightarrow> advances p p'"
  using parse_value_dom_adv(2) [of d n p] parse_value_total by blast

declare parse_value.simps [simp del] parse_values.simps [simp del] parse_enum.simps [simp del]
  parse_array.simps [simp del] parse_struct.simps [simp del]

subsection \<open>Calls\<close>

text \<open>
  \<^verbatim>\<open>Parser::parse_arg\<close>: the index is an \<^verbatim>\<open>unsigned\<close>, and \<open>index + 1\<close> wraps in 32 bits before it
  becomes the new size.
\<close>

definition parse_arg :: "decls \<Rightarrow> Call \<Rightarrow> Parser \<Rightarrow> error + (Call \<times> Parser)" where
  "parse_arg d call p =
     (case read_uint p of
        Inl e \<Rightarrow> Inl e
      | Inr (n, p1) \<Rightarrow>
          let index = (ucast n :: 32 word)
          in (case parse_value d p1 of
                Inl e \<Rightarrow> Inl e
              | Inr (v, p2) \<Rightarrow>
                  let args1 = (if length (args call) \<le> unat index
                               then resize (args call) (unat (index + 1))
                               else args call)
                  in (case assign args1 (unat index) v of
                        Inl e \<Rightarrow> Inl e
                      | Inr args2 \<Rightarrow> Inr (call\<lparr>args := args2\<rparr>, p2))))"

lemma parse_arg_adv:
  assumes "parse_arg d call p = Inr (call', p')"
  shows "advances p p'"
proof -
  from assms obtain n p1 v where
    a: "read_uint p = Inr (n, p1)" and b: "parse_value d p1 = Inr (v, p')"
    by (auto simp: parse_arg_def Let_def split: sum.splits)
  from read_uint_adv [OF a] parse_value_adv [OF b] show ?thesis by (rule advances_trans)
qed

text \<open>
  \<^verbatim>\<open>Parser::parse_call_details\<close>: the result is the \<^verbatim>\<open>bool\<close> of the source together with the
  call, which the source changes in place.
\<close>

function parse_call_details :: "decls \<Rightarrow> Call \<Rightarrow> Parser \<Rightarrow> error + (bool \<times> Call \<times> Parser)" where
  "parse_call_details d call p =
     (case read_byte p of
        (c, p1) \<Rightarrow>
          if c = - 1 then Inr (False, call, p1)
          else if c = CALL_END d then Inr (True, call, p1)
          else if c = CALL_ARG d then
            (case parse_arg d call p1 of
               Inl e \<Rightarrow> Inl e
             | Inr (call1, p2) \<Rightarrow> parse_call_details d call1 p2)
          else if c = CALL_RET d then
            (case parse_value d p1 of
               Inl e \<Rightarrow> Inl e
             | Inr (v, p2) \<Rightarrow> parse_call_details d (call\<lparr>ret := v\<rparr>) p2)
          else Inl (Unknown_call_detail c))"
  by pat_completeness auto
termination
proof (relation "measure (\<lambda>(d, call, p). remaining p)", goal_cases)
  case 1
  show ?case by simp
next
  case (2 d call p x y b xa ya)
  then have "parse_arg d call y = Inr (xa, ya)" by simp
  from advances_remaining [OF parse_arg_adv [OF this]] read_byte_less [OF 2(1) [symmetric] 2(2)]
  show ?case by simp
next
  case (3 d call p x y b xa ya)
  then have "parse_value d y = Inr (xa, ya)" by simp
  from advances_remaining [OF parse_value_adv [OF this]] read_byte_less [OF 3(1) [symmetric] 3(2)]
  show ?case by simp
qed

declare parse_call_details.simps [simp del]

text \<open>The details of a call change neither its number nor its signature.\<close>

lemma parse_arg_call: "parse_arg d call p = Inr (call', p') \<Longrightarrow> no call' = no call \<and> sig call' = sig call"
  by (auto simp: parse_arg_def Let_def split: sum.splits)

lemma parse_call_details_adv:
  "parse_call_details d call p = Inr (ok, call', p') \<Longrightarrow>
     advances p p' \<and> no call' = no call \<and> sig call' = sig call"
proof (induction d call p rule: parse_call_details.induct)
  case (1 d call p)
  obtain c p1 where rb: "read_byte p = (c, p1)" by (cases "read_byte p")
  note a1 = read_byte_adv [OF rb]
  note run = "1.prems" [unfolded parse_call_details.simps [of d call p] rb, simplified]
  consider (stop) "c = - 1 \<or> c = CALL_END d"
    | (arg) "c \<noteq> - 1" "c \<noteq> CALL_END d" "c = CALL_ARG d"
    | (ret) "c \<noteq> - 1" "c \<noteq> CALL_END d" "c \<noteq> CALL_ARG d" "c = CALL_RET d"
    | (bad) "c \<noteq> - 1" "c \<noteq> CALL_END d" "c \<noteq> CALL_ARG d" "c \<noteq> CALL_RET d"
    by blast
  then have "advances p1 p' \<and> no call' = no call \<and> sig call' = sig call"
  proof cases
    case stop
    with run show ?thesis by (auto split: if_splits)
  next
    case arg
    with run obtain call1 p2 where
      a: "parse_arg d call p1 = Inr (call1, p2)"
      and b: "parse_call_details d call1 p2 = Inr (ok, call', p')"
      by (auto split: sum.splits)
    from "1.IH"(1) [OF rb [symmetric] arg a refl b] parse_arg_adv [OF a] parse_arg_call [OF a]
    show ?thesis by (auto intro: advances_trans)
  next
    case ret
    with run obtain v p2 where
      a: "parse_value d p1 = Inr (v, p2)"
      and b: "parse_call_details d (call\<lparr>ret := v\<rparr>) p2 = Inr (ok, call', p')"
      by (auto split: sum.splits)
    from "1.IH"(2) [OF rb [symmetric] ret a refl b] parse_value_adv [OF a]
    show ?thesis by (auto intro: advances_trans)
  next
    case bad
    with run show ?thesis by simp
  qed
  with a1 show ?case by (auto intro: advances_trans)
qed

text \<open>Lines 146 to 173 of \<^verbatim>\<open>parse_enter\<close>: the reference to a function signature.\<close>

definition function_signature :: "Parser \<Rightarrow> error + (FunctionSig \<times> Parser)" where
  "function_signature p =
     (case read_uint p of
        Inl e \<Rightarrow> Inl e
      | Inr (id', p1) \<Rightarrow>
          (case lookup (functions p1) id' of
             (sig', tbl) \<Rightarrow>
               let p2 = p1\<lparr>functions := tbl\<rparr>;
                   offset = currentOffset (file p2);
                   callWithSig = callWithSignature p2 offset
               in (case sig' of
                     None \<Rightarrow>
                       (case read_string p2 of
                          Inl e \<Rightarrow> Inl e
                        | Inr (name, p3) \<Rightarrow>
                            (case read_uint p3 of
                               Inl e \<Rightarrow> Inl e
                             | Inr (n, p4) \<Rightarrow>
                                 (case read_strings (unat (ucast n :: 32 word)) p4 of
                                    Inl e \<Rightarrow> Inl e
                                  | Inr (names, p5) \<Rightarrow>
                                      let s = \<lparr>function_id = id', function_name = name,
                                               num_args = ucast n, arg_names = names\<rparr>
                                      in (case assign (functions p5) (unat id') (Some s) of
                                            Inl e \<Rightarrow> Inl e
                                          | Inr tbl' \<Rightarrow>
                                              Inr (s, p5\<lparr>functions := tbl',
                                                m_callSigOffsets :=
                                                  insert offset (m_callSigOffsets p5)\<rparr>)))))
                   | Some s \<Rightarrow>
                       if callWithSig then
                         (case read_string p2 of
                            Inl e \<Rightarrow> Inl e
                          | Inr (name, p3) \<Rightarrow>
                              (case read_uint p3 of
                                 Inl e \<Rightarrow> Inl e
                               | Inr (n, p4) \<Rightarrow>
                                   (case read_strings (unat (ucast n :: 32 word)) p4 of
                                      Inl e \<Rightarrow> Inl e
                                    | Inr (names, p5) \<Rightarrow> Inr (s, p5))))
                       else Inr (s, p2))))"

lemma function_signature_adv:
  assumes "function_signature p = Inr (s, p')"
  shows "advances p p'"
proof -
  from assms obtain i p1 where ru: "read_uint p = Inr (i, p1)"
    by (auto simp: function_signature_def split: sum.splits)
  obtain sg tbl where lk: "lookup (functions p1) i = (sg, tbl)"
    by (cases "lookup (functions p1) i")
  define p2 where "p2 = p1\<lparr>functions := tbl\<rparr>"
  have a2: "advances p p2"
    using read_uint_adv [OF ru] by (simp add: p2_def)
  note run = assms [unfolded function_signature_def ru, simplified, unfolded lk, simplified, folded p2_def]
  have "advances p2 p'"
  proof (cases sg)
    case None
    with run obtain name p3 n p4 names p5 tbl' where
      b: "read_string p2 = Inr (name, p3)" "read_uint p3 = Inr (n, p4)"
        "read_strings (unat (ucast n :: 32 word)) p4 = Inr (names, p5)"
      and d: "p' = p5\<lparr>functions := tbl',
        m_callSigOffsets := insert (currentOffset (file p1)) (m_callSigOffsets p5)\<rparr>"
      by (auto simp: Let_def split: sum.splits)
    from named_list_adv [OF b] d show ?thesis by simp
  next
    case (Some s')
    show ?thesis
    proof (cases "callWithSignature p2 (currentOffset (file p1))")
      case True
      with run Some obtain name p3 n p4 names where
        b: "read_string p2 = Inr (name, p3)" "read_uint p3 = Inr (n, p4)"
          "read_strings (unat (ucast n :: 32 word)) p4 = Inr (names, p')"
        by (auto simp: Let_def split: sum.splits)
      from named_list_adv [OF b] show ?thesis .
    next
      case False
      with run Some show ?thesis by (simp add: Let_def)
    qed
  qed
  with a2 show ?thesis by (rule advances_trans)
qed

text \<open>\<^verbatim>\<open>Parser::parse_enter\<close>; \<^verbatim>\<open>calls.push_back\<close> appends to the list of pending calls.\<close>

definition parse_enter :: "decls \<Rightarrow> Parser \<Rightarrow> error + Parser" where
  "parse_enter d p =
     (case function_signature p of
        Inl e \<Rightarrow> Inl e
      | Inr (s, p1) \<Rightarrow>
          let call = new_Call s (next_call_no p1);
              p2 = p1\<lparr>next_call_no := next_call_no p1 + 1\<rparr>
          in (case parse_call_details d call p2 of
                Inl e \<Rightarrow> Inl e
              | Inr (ok, call', p3) \<Rightarrow>
                  if ok then Inr (p3\<lparr>calls := calls p3 @ [call']\<rparr>) else Inr p3))"

lemma parse_enter_remaining: "parse_enter d p = Inr p' \<Longrightarrow> remaining p' \<le> remaining p"
  by (auto simp: parse_enter_def Let_def advances_def split: sum.splits if_splits
      dest!: function_signature_adv parse_call_details_adv)

text \<open>
  The loop of \<^verbatim>\<open>parse_leave\<close> over the pending calls: the first call with the number is
  taken out of the list.
\<close>

fun take_call :: "32 word \<Rightarrow> Call list \<Rightarrow> Call option \<times> Call list" where
  "take_call n [] = (None, [])"
| "take_call n (c # cs) =
     (if no c = n then (Some c, cs)
      else (case take_call n cs of (r, cs') \<Rightarrow> (r, c # cs')))"

text \<open>\<^verbatim>\<open>Parser::parse_leave\<close>; the number read is cast to \<^verbatim>\<open>unsigned\<close>.\<close>

definition parse_leave :: "decls \<Rightarrow> Parser \<Rightarrow> error + (Call option \<times> Parser)" where
  "parse_leave d p =
     (case read_uint p of
        Inl e \<Rightarrow> Inl e
      | Inr (n, p1) \<Rightarrow>
          let call_no = (ucast n :: 32 word)
          in (case take_call call_no (calls p1) of
                (None, cs) \<Rightarrow> Inr (None, p1)
              | (Some call, cs) \<Rightarrow>
                  (case parse_call_details d call (p1\<lparr>calls := cs\<rparr>) of
                     Inl e \<Rightarrow> Inl e
                   | Inr (ok, call', p2) \<Rightarrow>
                       if ok then Inr (Some call', p2) else Inr (None, p2))))"

text \<open>
  \<^verbatim>\<open>Parser::parse_call\<close>. At the end of the stream every pending call is reported on
  \<^verbatim>\<open>std::cerr\<close>. The result \<open>None\<close> is the null pointer of the source.
\<close>

function parse_call :: "decls \<Rightarrow> Parser \<Rightarrow> error + (Call option \<times> Parser)" where
  "parse_call d p =
     (case read_byte p of
        (c, p1) \<Rightarrow>
          if c = - 1 then
            Inr (None, p1\<lparr>cerr := cerr p1 @ map Incomplete_call (calls p1)\<rparr>)
          else if c = EVENT_ENTER d then
            (case parse_enter d p1 of
               Inl e \<Rightarrow> Inl e
             | Inr p2 \<Rightarrow> parse_call d p2)
          else if c = EVENT_LEAVE d then parse_leave d p1
          else Inl (Unknown_event c))"
  by pat_completeness auto
termination
proof (relation "measure (\<lambda>(d, p). remaining p)", goal_cases)
  case 1
  show ?case by simp
next
  case (2 d p x y b)
  from parse_enter_remaining [OF 2(4)] read_byte_less [OF 2(1) [symmetric] 2(2)]
  show ?case by simp
qed

declare parse_call.simps [simp del]

text \<open>
  The states of a parser between two events, as successive calls of \<^verbatim>\<open>parse_call\<close> go
  through them, with the number of \<^verbatim>\<open>ENTER\<close> events handled so far: one step for each
  branch of the \<^verbatim>\<open>switch\<close> of \<^verbatim>\<open>parse_call\<close> that does not end the process.
\<close>

inductive reach :: "decls \<Rightarrow> nat \<Rightarrow> Parser \<Rightarrow> bool" for d :: decls where
  start: "reach d 0 (new_Parser f)"
| enter: "reach d n p \<Longrightarrow> read_byte p = (c, p1) \<Longrightarrow> c \<noteq> - 1 \<Longrightarrow> c = EVENT_ENTER d \<Longrightarrow>
    parse_enter d p1 = Inr p' \<Longrightarrow> reach d (Suc n) p'"
| leave: "reach d n p \<Longrightarrow> read_byte p = (c, p1) \<Longrightarrow> c \<noteq> - 1 \<Longrightarrow> c \<noteq> EVENT_ENTER d \<Longrightarrow>
    c = EVENT_LEAVE d \<Longrightarrow> parse_leave d p1 = Inr (r, p') \<Longrightarrow> reach d n p'"
| eof: "reach d n p \<Longrightarrow> read_byte p = (- 1, p1) \<Longrightarrow>
    reach d n (p1\<lparr>cerr := cerr p1 @ map Incomplete_call (calls p1)\<rparr>)"

subsection \<open>Facts about the event loop\<close>

lemma take_call_None:
  "\<forall>c \<in> set cs. no c \<noteq> n \<Longrightarrow> take_call n cs = (None, cs)"
  by (induction cs) auto

lemma take_call_Some:
  "take_call n cs = (Some c, cs') \<Longrightarrow> no c = n \<and> c \<in> set cs \<and> cs' = remove1 c cs"
proof (induction cs arbitrary: cs')
  case Nil
  then show ?case by simp
next
  case (Cons a cs)
  show ?case
  proof (cases "no a = n")
    case True
    with Cons.prems show ?thesis by auto
  next
    case False
    with Cons.prems obtain cs1 where t: "take_call n cs = (Some c, cs1)" and e: "cs' = a # cs1"
      by (auto split: prod.splits)
    from Cons.IH [OF t] False e show ?thesis by auto
  qed
qed

lemma take_call_first:
  "\<forall>c \<in> set xs. no c \<noteq> no x \<Longrightarrow> take_call (no x) (xs @ x # ys) = (Some x, xs @ ys)"
  by (induction xs) auto

lemma parse_call_details_False:
  "parse_call_details d call p = Inr (False, call', p') \<Longrightarrow> pending (file p') = []"
proof (induction d call p rule: parse_call_details.induct)
  case (1 d call p)
  obtain c p1 where rb: "read_byte p = (c, p1)" by (cases "read_byte p")
  note run = "1.prems" [unfolded parse_call_details.simps [of d call p] rb, simplified]
  consider (eof) "c = - 1" | (stop) "c \<noteq> - 1" "c = CALL_END d"
    | (arg) "c \<noteq> - 1" "c \<noteq> CALL_END d" "c = CALL_ARG d"
    | (ret) "c \<noteq> - 1" "c \<noteq> CALL_END d" "c \<noteq> CALL_ARG d" "c = CALL_RET d"
    | (bad) "c \<noteq> - 1" "c \<noteq> CALL_END d" "c \<noteq> CALL_ARG d" "c \<noteq> CALL_RET d"
    by blast
  then show ?case
  proof cases
    case eof
    with run have "p' = p1" by simp
    with rb eof show ?thesis
      by (auto simp: read_byte_def getc_def uint_byte_not_eof split: list.splits prod.splits)
  next
    case stop
    with run show ?thesis by simp
  next
    case arg
    with run obtain call1 p2 where
      a: "parse_arg d call p1 = Inr (call1, p2)"
      and b: "parse_call_details d call1 p2 = Inr (False, call', p')"
      by (auto split: sum.splits)
    from "1.IH"(1) [OF rb [symmetric] arg a refl b] show ?thesis .
  next
    case ret
    with run obtain v p2 where
      a: "parse_value d p1 = Inr (v, p2)"
      and b: "parse_call_details d (call\<lparr>ret := v\<rparr>) p2 = Inr (False, call', p')"
      by (auto split: sum.splits)
    from "1.IH"(2) [OF rb [symmetric] ret a refl b] show ?thesis .
  next
    case bad
    with run show ?thesis by simp
  qed
qed

lemma parse_call_eof:
  "pending (file p) = [] \<Longrightarrow>
   parse_call d p = Inr (None, p\<lparr>cerr := cerr p @ map Incomplete_call (calls p)\<rparr>)"
  by (simp add: parse_call.simps [of d p] read_byte_def getc_def)

lemma parse_enter_effect:
  assumes "parse_enter d p = Inr p'"
  shows "next_call_no p' = next_call_no p + 1 \<and>
    (calls p' = calls p \<or> (\<exists>c. calls p' = calls p @ [c] \<and> no c = next_call_no p))"
proof -
  from assms obtain s p1 ok call' p3 where
    fs: "function_signature p = Inr (s, p1)"
    and det: "parse_call_details d (new_Call s (next_call_no p1))
      (p1\<lparr>next_call_no := next_call_no p1 + 1\<rparr>) = Inr (ok, call', p3)"
    and res: "p' = (if ok then p3\<lparr>calls := calls p3 @ [call']\<rparr> else p3)"
    by (auto simp: parse_enter_def Let_def split: sum.splits if_splits)
  from function_signature_adv [OF fs] have a1: "calls p1 = calls p" "next_call_no p1 = next_call_no p"
    by (simp_all add: advances_def)
  from parse_call_details_adv [OF det] have a3: "calls p3 = calls p1"
    "next_call_no p3 = next_call_no p1 + 1" "no call' = next_call_no p1"
    by (simp_all add: advances_def new_Call_def)
  from res a1 a3 show ?thesis by auto
qed

lemma parse_enter_pushed:
  assumes "parse_enter d p = Inr p'" and "calls p' = calls p @ [c]"
  shows "no c = next_call_no p" and "next_call_no p' = next_call_no p + 1"
  using parse_enter_effect [OF assms(1)] assms(2) by auto

lemma parse_leave_next_call_no:
  assumes "parse_leave d p = Inr (r, p')"
  shows "next_call_no p' = next_call_no p"
proof -
  from assms obtain n p1 where ru: "read_uint p = Inr (n, p1)"
    by (auto simp: parse_leave_def split: sum.splits)
  note a1 = advances_next_call_no [OF read_uint_adv [OF ru]]
  obtain found cs where tk: "take_call (ucast n) (calls p1) = (found, cs)"
    by (cases "take_call (ucast n) (calls p1)")
  show ?thesis
  proof (cases found)
    case None
    with assms ru tk a1 show ?thesis by (simp add: parse_leave_def)
  next
    case (Some call)
    with assms ru tk obtain ok call' where
      "parse_call_details d call (p1\<lparr>calls := cs\<rparr>) = Inr (ok, call', p')"
      by (auto simp: parse_leave_def split: sum.splits if_splits)
    from parse_call_details_adv [OF this] a1 show ?thesis by (simp add: advances_def)
  qed
qed

lemma reach_counter: "reach d n p \<Longrightarrow> next_call_no p = of_nat n"
proof (induction rule: reach.induct)
  case (start f)
  show ?case by (simp add: new_Parser_def)
next
  case (enter n p c p1 p')
  from parse_enter_effect [OF enter.hyps(5)] advances_next_call_no [OF read_byte_adv [OF enter.hyps(2)]]
    enter.IH
  show ?case by simp
next
  case (leave n p c p1 r p')
  from parse_leave_next_call_no [OF leave.hyps(6)]
    advances_next_call_no [OF read_byte_adv [OF leave.hyps(2)]] leave.IH
  show ?case by simp
next
  case (eof n p p1)
  from advances_next_call_no [OF read_byte_adv [OF eof.hyps(2)]] eof.IH
  show ?case by simp
qed

section \<open>A concrete set of constants\<close>

text \<open>
  The witnesses below run the parser on concrete streams. They use the numbering of
  apitrace's trace\_format.hpp for the wire constants, and a \<^verbatim>\<open>toSInt\<close> that reads integers and
  booleans and maps every other value to 0. Any other choice of distinct tag values would do.
\<close>

fun plain_toSInt :: "Value \<Rightarrow> error + 64 word" where
  "plain_toSInt (SInt v) = Inr v"
| "plain_toSInt (UInt v) = Inr v"
| "plain_toSInt (Bool b) = Inr (if b then 1 else 0)"
| "plain_toSInt v = Inr 0"

definition apitrace :: decls where
  "apitrace = \<lparr>EVENT_ENTER = 0, EVENT_LEAVE = 1, CALL_END = 0, CALL_ARG = 1, CALL_RET = 2,
     TYPE_NULL = 0, TYPE_FALSE = 1, TYPE_TRUE = 2, TYPE_SINT = 3, TYPE_UINT = 4,
     TYPE_FLOAT = 5, TYPE_DOUBLE = 6, TYPE_STRING = 7, TYPE_ENUM = 9, TYPE_BITMASK = 10,
     TYPE_ARRAY = 11, TYPE_STRUCT = 12, TYPE_BLOB = 8, TYPE_OPAQUE = 13,
     toSInt = plain_toSInt\<rparr>"

text \<open>The signature of a function \<open>foo(x)\<close> with the id 0.\<close>

definition foo :: FunctionSig where
  "foo = \<lparr>function_id = 0, function_name = [102, 111, 111], num_args = 1, arg_names = [[120]]\<rparr>"

text \<open>
  Call details with three \<^verbatim>\<open>CALL_ARG\<close> records, at the indices 0, 3 and 1, each with a
  \<^verbatim>\<open>TYPE_UINT\<close> value, and the closing \<^verbatim>\<open>CALL_END\<close>.
\<close>

definition sparse_details :: "byte list" where
  "sparse_details = [1, 0, 4, 10,  1, 3, 4, 30,  1, 1, 4, 20,  0]"

text \<open>
  A call of \<open>foo\<close> whose \<^verbatim>\<open>ENTER\<close> has \<^verbatim>\<open>CALL_ARG\<close> records at the indices 5 and 2, and whose
  \<^verbatim>\<open>LEAVE\<close> has the three records of \<open>sparse_details\<close>.
\<close>

definition late_args :: "byte list" where
  "late_args = [0, 0, 3, 102, 111, 111, 1, 1, 120,  1, 5, 4, 50,  1, 2, 4, 22,  0,
                1, 0] @ sparse_details"

text \<open>
  A stream that ends inside the \<^verbatim>\<open>LEAVE\<close> of its only call: \<^verbatim>\<open>ENTER\<close> of \<open>foo(42)\<close>, then
  \<^verbatim>\<open>LEAVE\<close> with the number 0, \<^verbatim>\<open>CALL_RET\<close>, \<^verbatim>\<open>TYPE_UINT\<close> and nothing more.
\<close>

definition cut_leave :: "byte list" where
  "cut_leave = [0, 0, 3, 102, 111, 111, 1, 1, 120, 1, 0, 4, 42, 0,  1, 0, 2, 4]"

definition foo42 :: Call where
  "foo42 = \<lparr>no = 0, sig = foo, args = [Some (UInt 42)], ret = None\<rparr>"

text \<open>The parser once the signature of \<open>foo\<close> is known: the rest of the stream, the number of
  bytes read, the call counter and the pending calls are given.\<close>

definition entered :: "byte list \<Rightarrow> nat \<Rightarrow> 32 word \<Rightarrow> Call list \<Rightarrow> Parser" where
  "entered bs k n cs = (new_Parser \<lparr>pending = bs, consumed = k\<rparr>)
     \<lparr>next_call_no := n, calls := cs, functions := [Some foo], m_callSigOffsets := {2}\<rparr>"

text \<open>
  A \<^verbatim>\<open>LEAVE\<close> with the number 5, which no call has, with its \<^verbatim>\<open>CALL_END\<close>, in front of the
  complete \<^verbatim>\<open>ENTER\<close> and \<^verbatim>\<open>LEAVE\<close> of \<open>foo(42)\<close>.
\<close>

definition stray_leave :: "byte list" where
  "stray_leave = [1, 5, 0,  0, 0, 3, 102, 111, 111, 1, 1, 120, 1, 0, 4, 42, 0,  1, 0, 0]"

text \<open>
  Two calls of \<open>foo\<close> that overlap: \<^verbatim>\<open>ENTER\<close> of \<open>foo(42)\<close> with the signature, \<^verbatim>\<open>ENTER\<close> of
  \<open>foo(7)\<close> without it, \<^verbatim>\<open>LEAVE\<close> of call 1 with the return value 9, \<^verbatim>\<open>LEAVE\<close> of call 0.
\<close>

definition foo7 :: Call where
  "foo7 = \<lparr>no = 1, sig = foo, args = [Some (UInt 7)], ret = None\<rparr>"

definition nested :: "byte list" where
  "nested = [0, 0, 3, 102, 111, 111, 1, 1, 120, 1, 0, 4, 42, 0,
             0, 0, 1, 0, 4, 7, 0,
             1, 1, 2, 4, 9, 0,
             1, 0, 0]"

text \<open>
  The same two calls, left in the order of their enters: \<^verbatim>\<open>LEAVE\<close> of call 0, then \<^verbatim>\<open>LEAVE\<close>
  of call 1 with the return value 9.
\<close>

definition crossed :: "byte list" where
  "crossed = [0, 0, 3, 102, 111, 111, 1, 1, 120, 1, 0, 4, 42, 0,
              0, 0, 1, 0, 4, 7, 0,
              1, 0, 0,
              1, 1, 2, 4, 9, 0]"

text \<open>
  A function without a name and without arguments, and the parser after \<open>j + 1\<close> calls of
  it have been entered and none has been left: the first \<^verbatim>\<open>ENTER\<close> brings the signature
  (five bytes), every later one has three bytes (\<^verbatim>\<open>ENTER\<close>, the id 0, \<^verbatim>\<open>CALL_END\<close>).
\<close>

definition anon :: FunctionSig where
  "anon = \<lparr>function_id = 0, function_name = [], num_args = 0, arg_names = []\<rparr>"

definition flood :: "nat \<Rightarrow> byte list \<Rightarrow> Parser" where
  "flood j r = (new_Parser \<lparr>pending = r, consumed = 5 + 3 * j\<rparr>)
     \<lparr>next_call_no := of_nat (Suc j),
      calls := map (\<lambda>i. new_Call anon (of_nat i)) [0..<Suc j],
      functions := [Some anon], m_callSigOffsets := {2}\<rparr>"

text \<open>
  The scenario S5 of the specification: \<open>foo()\<close> is entered with its signature and left,
  then entered again with the whole signature once more (at a new offset) and left.
\<close>

definition foo0 :: FunctionSig where
  "foo0 = \<lparr>function_id = 0, function_name = [102, 111, 111], num_args = 0, arg_names = []\<rparr>"

definition reemitted :: "byte list" where
  "reemitted = [0, 0, 3, 102, 111, 111, 0, 0,  1, 0, 0,
                0, 0, 3, 102, 111, 111, 0, 0,  1, 1, 0]"

text \<open>The parser after the first of these calls: the signature of \<open>foo()\<close> is known.\<close>

definition known :: "byte list \<Rightarrow> nat \<Rightarrow> Parser" where
  "known bs k = (new_Parser \<lparr>pending = bs, consumed = k\<rparr>)
     \<lparr>next_call_no := 1, functions := [Some foo0], m_callSigOffsets := {2}\<rparr>"


text \<open>
  The \<^verbatim>\<open>ENTER\<close> of \<open>foo\<close> with an argument whose value starts with \<^verbatim>\<open>TYPE_ENUM\<close>; the stream
  ends right behind this tag.
\<close>

definition cut_enum :: "byte list" where
  "cut_enum = [0, 0, 3, 102, 111, 111, 1, 1, 120, 1, 0, 9]"

text \<open>The counted loops, unfolded once when the count is a numeral.\<close>

lemma read_strings_numeral:
  "read_strings (numeral k) p =
     (case read_string p of
        Inl e \<Rightarrow> Inl e
      | Inr (s, p1) \<Rightarrow>
          (case read_strings (pred_numeral k) p1 of
             Inl e \<Rightarrow> Inl e
           | Inr (ss, p2) \<Rightarrow> Inr (s # ss, p2)))"
  by (simp add: numeral_eq_Suc)

lemma skip_flags_numeral:
  "skip_flags (numeral k) p =
     (case read_string p of
        Inl e \<Rightarrow> Inl e
      | Inr (name, p1) \<Rightarrow>
          (case read_uint p1 of
             Inl e \<Rightarrow> Inl e
           | Inr (v, p2) \<Rightarrow> skip_flags (pred_numeral k) p2))"
  by (simp add: numeral_eq_Suc)

lemma read_flags_numeral:
  "read_flags (numeral k) first p =
     (case read_string p of
        Inl e \<Rightarrow> Inl e
      | Inr (name, p1) \<Rightarrow>
          (case read_uint p1 of
             Inl e \<Rightarrow> Inl e
           | Inr (v, p2) \<Rightarrow>
               (case read_flags (pred_numeral k) False
                   (if v = 0 \<and> \<not> first
                    then p2\<lparr>cerr := cerr p2 @ [Bitmask_zero_not_first name]\<rparr> else p2) of
                  Inl e \<Rightarrow> Inl e
                | Inr (fs, p4) \<Rightarrow> Inr (\<lparr>flag_name = name, flag_value = v\<rparr> # fs, p4))))"
  by (simp add: numeral_eq_Suc Let_def split: sum.splits)

lemma replicate_numeral_Cons: "replicate (numeral k) x = x # replicate (pred_numeral k) x"
  by (simp add: numeral_eq_Suc)

lemma list_update_numeral_Cons: "(x # xs)[numeral k := y] = x # xs[pred_numeral k := y]"
  by (simp add: numeral_eq_Suc)

lemmas reader_defs = read_byte_def read_uint_def read_uint_file_def read_string_def getc_def
  read_def currentOffset_def stream_def new_Parser_def read_uint_loop.simps
  read_strings_numeral skip_flags_numeral read_flags_numeral Let_def

lemmas value_defs = parse_value.simps parse_values.simps parse_enum.simps parse_array.simps
  parse_struct.simps non_null_def parse_sint_def parse_uint_def parse_float_def
  parse_double_def parse_string_def parse_blob_def parse_opaque_def parse_bitmask_def
  bitmask_signature_def struct_signature_def lookup_def resize_def assign_def
  enumWithSignature_def structWithSignature_def bitmaskWithSignature_def

lemmas call_defs = parse_call.simps parse_enter_def parse_leave_def parse_call_details.simps
  parse_arg_def function_signature_def callWithSignature_def new_Call_def

section \<open>Properties\<close>

text \<open>
  C8. Round trip of varints: for each of the values 0, 1, 127, 128, 16383, 16384,
  \<open>2^32 - 1\<close> and \<open>2^64 - 1\<close>, \<^verbatim>\<open>read_uint\<close> applied to a stream that starts with the
  little-endian base-128 encoding of the value returns the value and stops right behind
  the encoding.
\<close>

theorem varint_roundtrip_listed:
  "read_uint (p\<lparr>file := stream (uv 0 @ rest)\<rparr>)
     = Inr (0, p\<lparr>file := \<lparr>pending = rest, consumed = 1\<rparr>\<rparr>) \<and>
   read_uint (p\<lparr>file := stream (uv 1 @ rest)\<rparr>)
     = Inr (1, p\<lparr>file := \<lparr>pending = rest, consumed = 1\<rparr>\<rparr>) \<and>
   read_uint (p\<lparr>file := stream (uv 127 @ rest)\<rparr>)
     = Inr (127, p\<lparr>file := \<lparr>pending = rest, consumed = 1\<rparr>\<rparr>) \<and>
   read_uint (p\<lparr>file := stream (uv 128 @ rest)\<rparr>)
     = Inr (128, p\<lparr>file := \<lparr>pending = rest, consumed = 2\<rparr>\<rparr>) \<and>
   read_uint (p\<lparr>file := stream (uv 16383 @ rest)\<rparr>)
     = Inr (16383, p\<lparr>file := \<lparr>pending = rest, consumed = 2\<rparr>\<rparr>) \<and>
   read_uint (p\<lparr>file := stream (uv 16384 @ rest)\<rparr>)
     = Inr (16384, p\<lparr>file := \<lparr>pending = rest, consumed = 3\<rparr>\<rparr>) \<and>
   read_uint (p\<lparr>file := stream (uv (2 ^ 32 - 1) @ rest)\<rparr>)
     = Inr (2 ^ 32 - 1, p\<lparr>file := \<lparr>pending = rest, consumed = 5\<rparr>\<rparr>) \<and>
   read_uint (p\<lparr>file := stream (uv (2 ^ 64 - 1) @ rest)\<rparr>)
     = Inr (2 ^ 64 - 1, p\<lparr>file := \<lparr>pending = rest, consumed = 10\<rparr>\<rparr>)"
  by (simp add: uv.simps read_uint_def read_uint_file_def stream_def getc_def
      read_uint_loop.simps)


subsection \<open>The end of the stream inside a varint\<close>

text \<open>
  The test \<^verbatim>\<open>c & 0x80\<close> of \<^verbatim>\<open>read_uint\<close> on a byte, and the value that the loop has or-ed
  together from the payloads of the bytes it has read.
\<close>

definition continues :: "byte \<Rightarrow> bool" where
  "continues b \<longleftrightarrow> uint b AND 0x80 \<noteq> 0"

fun accumulate :: "nat \<Rightarrow> byte list \<Rightarrow> 64 word" where
  "accumulate shift [] = 0"
| "accumulate shift (b # bs) =
     push_bit shift (word_of_int (uint b AND 0x7f)) OR accumulate (shift + 7) bs"

lemma read_uint_loop_eof:
  "\<forall>b \<in> set bs. continues b \<Longrightarrow> shift + 7 * length bs \<le> 70 \<Longrightarrow>
   read_uint_loop v shift \<lparr>pending = bs, consumed = k\<rparr>
     = Inr (v OR accumulate shift bs, \<lparr>pending = [], consumed = k + length bs\<rparr>)"
proof (induction bs arbitrary: v shift k)
  case Nil
  show ?case by (simp add: read_uint_loop.simps [of v shift] getc_def)
next
  case (Cons b bs)
  from Cons.prems have c: "uint b AND 0x80 \<noteq> 0" and sh: "\<not> 64 \<le> shift"
    and rest: "\<forall>b \<in> set bs. continues b" "(shift + 7) + 7 * length bs \<le> 70"
    by (auto simp: continues_def)
  show ?case
    using c sh Cons.IH [OF rest]
    by (simp add: read_uint_loop.simps [of v shift] getc_def uint_byte_not_eof Let_def or.assoc)
qed

lemma read_uint_loop_closed:
  "\<forall>b \<in> set bs. continues b \<Longrightarrow> shift + 7 * length bs \<le> 63 \<Longrightarrow>
   read_uint_loop v shift \<lparr>pending = bs @ (b AND 0x7f) # rest, consumed = k\<rparr>
     = Inr (v OR accumulate shift (bs @ [b]), \<lparr>pending = rest, consumed = k + length bs + 1\<rparr>)"
proof (induction bs arbitrary: v shift k)
  case Nil
  have "uint (b AND 0x7f) AND 0x80 = 0" "uint (b AND 0x7f) AND 0x7f = uint b AND 0x7f"
    by (simp_all add: uint_and and.assoc)
  with Nil.prems show ?case
    by (simp add: read_uint_loop.simps [of v shift] getc_def uint_byte_not_eof Let_def)
next
  case (Cons a bs)
  from Cons.prems have c: "uint a AND 0x80 \<noteq> 0" and sh: "\<not> 64 \<le> shift"
    and rest: "\<forall>b \<in> set bs. continues b" "(shift + 7) + 7 * length bs \<le> 63"
    by (auto simp: continues_def)
  show ?case
    using c sh Cons.IH [OF rest]
    by (simp add: read_uint_loop.simps [of v shift] getc_def uint_byte_not_eof Let_def or.assoc)
qed

text \<open>
  C9. When the stream ends inside a varint, that is after one to ten bytes that all have
  the continuation bit, \<^verbatim>\<open>read_uint\<close> returns the value accumulated from the payloads of
  these bytes: not an error and nothing that marks the end. The same value comes back from
  the complete encoding that has the continuation bit of the last byte cleared, whatever
  follows it, so that the caller cannot tell the two apart. (More than ten bytes are
  outside the format: the eleventh shift would be by 70 bits.)
\<close>

theorem eof_inside_varint:
  assumes "bs \<noteq> []" and "\<forall>b \<in> set bs. continues b" and "length bs \<le> 10"
  shows "read_uint (p\<lparr>file := \<lparr>pending = bs, consumed = k\<rparr>\<rparr>)
           = Inr (accumulate 0 bs, p\<lparr>file := \<lparr>pending = [], consumed = k + length bs\<rparr>\<rparr>) \<and>
         read_uint (p\<lparr>file := \<lparr>pending = butlast bs @ (last bs AND 0x7f) # rest, consumed = k\<rparr>\<rparr>)
           = Inr (accumulate 0 bs, p\<lparr>file := \<lparr>pending = rest, consumed = k + length bs\<rparr>\<rparr>)"
proof -
  from assms(2,3) have eof: "read_uint_loop 0 0 \<lparr>pending = bs, consumed = k\<rparr>
      = Inr (0 OR accumulate 0 bs, \<lparr>pending = [], consumed = k + length bs\<rparr>)"
    by (intro read_uint_loop_eof) simp_all
  from assms(1) have split: "butlast bs @ [last bs] = bs" by simp
  from assms(1) have len: "length (butlast bs) + 1 = length bs" by simp
  from assms(2) have "\<forall>b \<in> set (butlast bs). continues b"
    by (auto dest: in_set_butlastD)
  moreover from assms(1,3) have "0 + 7 * length (butlast bs) \<le> 63" by simp
  ultimately have "read_uint_loop 0 0
      \<lparr>pending = butlast bs @ (last bs AND 0x7f) # rest, consumed = k\<rparr>
      = Inr (0 OR accumulate 0 (butlast bs @ [last bs]),
          \<lparr>pending = rest, consumed = k + length (butlast bs) + 1\<rparr>)"
    by (rule read_uint_loop_closed)
  then have closed: "read_uint_loop 0 0
      \<lparr>pending = butlast bs @ (last bs AND 0x7f) # rest, consumed = k\<rparr>
      = Inr (accumulate 0 bs, \<lparr>pending = rest, consumed = k + length bs\<rparr>)"
    using len by (simp only: split add.assoc or.left_neutral)
  from eof closed show ?thesis
    by (simp add: read_uint_def read_uint_file_def)
qed

theorem eof_inside_varint_witness:
  "read_uint (new_Parser (stream [0xAC, 0x82])) = Inr (300, new_Parser \<lparr>pending = [], consumed = 2\<rparr>) \<and>
   read_uint (new_Parser (stream [0xAC, 0x02, 0x55])) = Inr (300, new_Parser \<lparr>pending = [0x55], consumed = 2\<rparr>)"
  using eof_inside_varint [where bs = "[0xAC, 0x82]" and p = "new_Parser (stream [])" and k = 0
      and rest = "[0x55]"]
  by (simp add: continues_def new_Parser_def stream_def)


subsection \<open>Sparse argument indices\<close>

text \<open>
  One \<^verbatim>\<open>CALL_ARG\<close> record: \<^verbatim>\<open>parse_arg\<close> makes the vector of arguments as long as the index
  needs, never shorter, and puts the value at the index.
\<close>

lemma parse_arg_puts:
  assumes "read_uint p = Inr (n, p1)" and "parse_value d p1 = Inr (v, p2)"
    and "unat (ucast n :: 32 word) = k" and "k < 2 ^ 32 - 1"
  shows "parse_arg d call p
    = Inr (call\<lparr>args := (args call @ replicate (Suc k - length (args call)) None)[k := v]\<rparr>, p2)"
proof -
  have k1: "unat ((ucast n :: 32 word) + 1) = Suc k"
    using assms(3,4) by (simp add: unat_word_ariths)
  show ?thesis
  proof (cases "length (args call) \<le> k")
    case True
    then have "resize (args call) (Suc k) = args call @ replicate (Suc k - length (args call)) None"
      by (simp add: resize_def)
    with True show ?thesis
      by (simp add: parse_arg_def assms(1,2,3) k1 assign_def)
  next
    case False
    then show ?thesis
      by (simp add: parse_arg_def assms(1,2,3) assign_def)
  qed
qed

text \<open>
  C7, as the code has it. Three \<^verbatim>\<open>CALL_ARG\<close> records with the indices 0, 3 and 1, in this
  order, in the details of any call: after them the vector of arguments has four slots or
  as many as it had before, whichever is more; the slots 0, 1 and 3 hold the values decoded
  for them (\<open>v0\<close>, \<open>v1\<close>, \<open>v3\<close>), and every other slot is as it was: slot 2 is unset when
  the call had no more than two slots, and keeps its content otherwise. Parsing the details
  goes on from there with exactly this call.
\<close>

theorem sparse_arg_indices:
  assumes "CALL_ARG d \<noteq> - 1" and "CALL_ARG d \<noteq> CALL_END d"
    and "read_byte p0 = (CALL_ARG d, q0)" and "read_uint q0 = Inr (0, r0)"
    and "parse_value d r0 = Inr (v0, p1)"
    and "read_byte p1 = (CALL_ARG d, q1)" and "read_uint q1 = Inr (3, r1)"
    and "parse_value d r1 = Inr (v3, p2)"
    and "read_byte p2 = (CALL_ARG d, q2)" and "read_uint q2 = Inr (1, r2)"
    and "parse_value d r2 = Inr (v1, p3)"
  shows "let args' = (args call @ replicate (4 - length (args call)) None)[0 := v0, 3 := v3, 1 := v1]
    in parse_call_details d call p0 = parse_call_details d (call\<lparr>args := args'\<rparr>) p3 \<and>
       length args' = max 4 (length (args call)) \<and>
       args' ! 0 = v0 \<and> args' ! 1 = v1 \<and> args' ! 3 = v3 \<and>
       args' ! 2 = (if 2 < length (args call) then args call ! 2 else None) \<and>
       drop 4 args' = drop 4 (args call)"
proof -
  define grow :: "Value option list \<Rightarrow> nat \<Rightarrow> Value option list"
    where "grow ys n = ys @ replicate (n - length ys) None" for ys n
  have len: "length (grow ys n) = max n (length ys)" for ys n
    by (simp add: grow_def)
  have upd: "grow (ys[i := v]) n = (grow ys n)[i := v]" if "i < length ys" for ys i v n
    using that by (simp add: grow_def list_update_append1)
  have twice: "grow (grow ys n) m = grow ys (max n m)" for ys n m
    by (cases "n \<le> length ys"; cases "m \<le> length ys"; cases "m \<le> n")
      (simp_all add: grow_def replicate_add [symmetric] max_def)
  define a0 where "a0 = (grow (args call) (Suc 0))[0 := v0]"
  define a3 where "a3 = (grow a0 (Suc 3))[3 := v3]"
  define a1 where "a1 = (grow a3 (Suc 1))[1 := v1]"
  define args' where "args' = (grow (args call) 4)[0 := v0, 3 := v3, 1 := v1]"
  have s0: "parse_arg d call q0 = Inr (call\<lparr>args := a0\<rparr>, p1)"
    using parse_arg_puts [OF assms(4,5), of 0 call] by (simp add: a0_def grow_def)
  have s3: "parse_arg d (call\<lparr>args := a0\<rparr>) q1 = Inr (call\<lparr>args := a3\<rparr>, p2)"
    using parse_arg_puts [OF assms(7,8), of 3 "call\<lparr>args := a0\<rparr>"] by (simp add: a3_def grow_def)
  have s1: "parse_arg d (call\<lparr>args := a3\<rparr>) q2 = Inr (call\<lparr>args := a1\<rparr>, p3)"
    using parse_arg_puts [OF assms(10,11), of 1 "call\<lparr>args := a3\<rparr>"] by (simp add: a1_def grow_def)
  have "0 < length (grow (args call) (Suc 0))" by (simp add: len)
  then have "grow a0 (Suc 3) = (grow (grow (args call) (Suc 0)) (Suc 3))[0 := v0]"
    unfolding a0_def by (rule upd)
  then have e3: "a3 = (grow (args call) 4)[0 := v0, 3 := v3]"
    by (simp add: a3_def twice)
  have "Suc 1 \<le> length a3" by (simp add: e3 len)
  then have "grow a3 (Suc 1) = a3" by (simp add: grow_def)
  then have e: "a1 = args'" by (simp add: a1_def args'_def e3)
  have "parse_call_details d call p0 = parse_call_details d (call\<lparr>args := a0\<rparr>) p1"
    using assms(1,2,3) s0 by (simp add: parse_call_details.simps [of d call p0])
  also have "\<dots> = parse_call_details d (call\<lparr>args := a3\<rparr>) p2"
    using assms(1,2,6) s3 by (simp add: parse_call_details.simps [of d _ p1])
  also have "\<dots> = parse_call_details d (call\<lparr>args := a1\<rparr>) p3"
    using assms(1,2,9) s1 by (simp add: parse_call_details.simps [of d _ p2])
  finally have run: "parse_call_details d call p0 = parse_call_details d (call\<lparr>args := args'\<rparr>) p3"
    by (simp add: e)
  have l4: "length args' = max 4 (length (args call))"
    by (simp add: args'_def len)
  have n0: "args' ! 0 = v0" and n1: "args' ! 1 = v1" and n3: "args' ! 3 = v3"
    by (simp_all add: args'_def len nth_list_update)
  have n2: "args' ! 2 = (if 2 < length (args call) then args call ! 2 else None)"
    by (simp add: args'_def grow_def nth_append)
  have d4: "drop 4 args' = drop 4 (args call)"
    by (simp add: args'_def grow_def drop_update_swap)
  from run l4 n0 n1 n3 n2 d4 show ?thesis
    unfolding Let_def args'_def [symmetric] grow_def [symmetric] by simp
qed

theorem sparse_arg_indices_witness:
  "parse_call_details apitrace foo42 (new_Parser (stream sparse_details))
     = Inr (True, foo42\<lparr>args := [Some (UInt 10), Some (UInt 20), None, Some (UInt 30)]\<rparr>,
         new_Parser \<lparr>pending = [], consumed = 13\<rparr>)"
proof -
  define at where "at n = new_Parser \<lparr>pending = drop n sparse_details, consumed = n\<rparr>" for n
  have start: "new_Parser (stream sparse_details) = at 0"
    by (simp add: at_def stream_def)
  have tags: "CALL_ARG apitrace \<noteq> - 1" "CALL_ARG apitrace \<noteq> CALL_END apitrace"
    by (simp_all add: apitrace_def)
  have steps:
    "read_byte (at 0) = (CALL_ARG apitrace, at 1)" "read_uint (at 1) = Inr (0, at 2)"
    "parse_value apitrace (at 2) = Inr (Some (UInt 10), at 4)"
    "read_byte (at 4) = (CALL_ARG apitrace, at 5)" "read_uint (at 5) = Inr (3, at 6)"
    "parse_value apitrace (at 6) = Inr (Some (UInt 30), at 8)"
    "read_byte (at 8) = (CALL_ARG apitrace, at 9)" "read_uint (at 9) = Inr (1, at 10)"
    "parse_value apitrace (at 10) = Inr (Some (UInt 20), at 12)"
    by (simp_all add: at_def sparse_details_def apitrace_def reader_defs value_defs)
  have last: "parse_call_details apitrace c (at 12) = Inr (True, c, at 13)" for c
    by (simp add: at_def sparse_details_def apitrace_def reader_defs call_defs)
  have pad: "(args foo42 @ replicate (4 - length (args foo42)) None)
      [0 := Some (UInt 10), 3 := Some (UInt 30), 1 := Some (UInt 20)]
    = [Some (UInt 10), Some (UInt 20), None, Some (UInt 30)]"
    by (simp add: foo42_def numeral_eq_Suc)
  from sparse_arg_indices [OF tags steps, of foo42, unfolded Let_def pad]
  have "parse_call_details apitrace foo42 (at 0)
    = parse_call_details apitrace
        (foo42\<lparr>args := [Some (UInt 10), Some (UInt 20), None, Some (UInt 30)]\<rparr>) (at 12)"
    by (rule conjunct1)
  then show ?thesis
    by (simp add: start last) (simp add: at_def sparse_details_def)
qed

text \<open>
  C7 as the specification states it, for any call, fails for a call that has arguments
  already, as the call of a \<^verbatim>\<open>LEAVE\<close> has after its \<^verbatim>\<open>ENTER\<close>. In \<open>late_args\<close> the \<^verbatim>\<open>ENTER\<close>
  writes the arguments 5 and 2 and the \<^verbatim>\<open>LEAVE\<close> the arguments 0, 3 and 1: the call comes out
  with six slots, and slot 2 is set. The same holds for the three records alone, read into
  a call that has six slots.
\<close>

theorem sparse_arg_indices_counterexample:
  "parse_call apitrace (new_Parser (stream late_args))
     = Inr (Some \<lparr>no = 0, sig = foo,
              args = [Some (UInt 10), Some (UInt 20), Some (UInt 22), Some (UInt 30), None,
                      Some (UInt 50)],
              ret = None\<rparr>,
            entered [] 33 1 []) \<and>
   parse_call_details apitrace
       (foo42\<lparr>args := [None, None, Some (UInt 22), None, None, Some (UInt 50)]\<rparr>)
       (new_Parser (stream sparse_details))
     = Inr (True,
         foo42\<lparr>args := [Some (UInt 10), Some (UInt 20), Some (UInt 22), Some (UInt 30), None,
                          Some (UInt 50)]\<rparr>,
         new_Parser \<lparr>pending = [], consumed = 13\<rparr>) \<and>
   length [Some (UInt 10), Some (UInt 20), Some (UInt 22), Some (UInt 30), None,
           Some (UInt 50)] \<noteq> 4 \<and>
   [Some (UInt 10), Some (UInt 20), Some (UInt 22), Some (UInt 30), None, Some (UInt 50)] ! 2
     \<noteq> None"
  by (simp add: late_args_def sparse_details_def entered_def foo42_def foo_def apitrace_def
      reader_defs value_defs call_defs replicate_numeral_Cons list_update_numeral_Cons)


subsection \<open>A leave whose details are cut off\<close>

text \<open>
  C10. \<^verbatim>\<open>parse_leave\<close> is not atomic. The call that matches the number is taken out of the
  pending calls before the details of the leave are parsed. When these details stop at the
  end of the stream, \<^verbatim>\<open>parse_leave\<close> returns no call, the call is gone from the pending
  calls, and the warnings of the following \<^verbatim>\<open>parse_call\<close> list the other pending calls only.
\<close>

theorem leave_removes_before_details:
  assumes ru: "read_uint p = Inr (n, p1)"
    and tk: "take_call (ucast n) (calls p) = (Some call, cs)"
    and det: "parse_call_details d call (p1\<lparr>calls := cs\<rparr>) = Inr (False, call', p2)"
  shows "parse_leave d p = Inr (None, p2) \<and>
    call \<in> set (calls p) \<and> no call = ucast n \<and> calls p2 = remove1 call (calls p) \<and>
    parse_call d p2
      = Inr (None, p2\<lparr>cerr := cerr p2 @ map Incomplete_call (remove1 call (calls p))\<rparr>)"
proof -
  from read_uint_adv [OF ru] have c1: "calls p1 = calls p" by (rule advances_calls)
  from ru tk det c1 have leave: "parse_leave d p = Inr (None, p2)"
    by (simp add: parse_leave_def)
  from take_call_Some [OF tk] have found: "no call = ucast n" "call \<in> set (calls p)"
    and cs: "cs = remove1 call (calls p)" by simp_all
  from parse_call_details_adv [OF det] have "calls p2 = cs"
    by (simp add: advances_def)
  with cs have c2: "calls p2 = remove1 call (calls p)" by simp
  from parse_call_details_False [OF det] have "pending (file p2) = []" .
  from parse_call_eof [OF this, of d] c2 leave found show ?thesis by simp
qed


theorem leave_removes_before_details_witness:
  "parse_call apitrace (new_Parser (stream cut_leave)) = Inr (None, entered [] 18 1 []) \<and>
   parse_leave apitrace (entered [0, 2, 4] 15 1 [foo42]) = Inr (None, entered [] 18 1 []) \<and>
   parse_call apitrace (entered [] 18 1 []) = Inr (None, entered [] 18 1 [])"
proof -
  have "read_uint (entered [0, 2, 4] 15 1 [foo42]) = Inr (0, entered [2, 4] 16 1 [foo42])"
    by (simp add: entered_def reader_defs)
  moreover have "take_call (ucast (0 :: 64 word)) (calls (entered [0, 2, 4] 15 1 [foo42]))
      = (Some foo42, [])"
    by (simp add: entered_def foo42_def new_Parser_def)
  moreover have "parse_call_details apitrace foo42 ((entered [2, 4] 16 1 [foo42])\<lparr>calls := []\<rparr>)
      = Inr (False, foo42\<lparr>ret := Some (UInt 0)\<rparr>, entered [] 18 1 [])"
    by (simp add: entered_def foo42_def apitrace_def reader_defs value_defs call_defs Let_def)
  ultimately have removed:
    "parse_leave apitrace (entered [0, 2, 4] 15 1 [foo42]) = Inr (None, entered [] 18 1 [])
    \<and> foo42 \<in> set (calls (entered [0, 2, 4] 15 1 [foo42])) \<and> no foo42 = ucast (0 :: 64 word)
    \<and> calls (entered [] 18 1 []) = remove1 foo42 (calls (entered [0, 2, 4] 15 1 [foo42]))
    \<and> parse_call apitrace (entered [] 18 1 [])
      = Inr (None, (entered [] 18 1 [])\<lparr>cerr := cerr (entered [] 18 1 [])
          @ map Incomplete_call (remove1 foo42 (calls (entered [0, 2, 4] 15 1 [foo42])))\<rparr>)"
    by (rule leave_removes_before_details)
  have run: "parse_call apitrace (new_Parser (stream cut_leave))
      = parse_leave apitrace (entered [0, 2, 4] 15 1 [foo42])"
    by (simp add: cut_leave_def entered_def foo42_def foo_def apitrace_def reader_defs value_defs
        call_defs Let_def)
  have tidy: "(entered [] 18 1 [])\<lparr>cerr := cerr (entered [] 18 1 [])
      @ map Incomplete_call (remove1 foo42 (calls (entered [0, 2, 4] 15 1 [foo42])))\<rparr>
      = entered [] 18 1 []"
    by (simp add: entered_def new_Parser_def)
  from removed run tidy show ?thesis by simp
qed

subsection \<open>A leave without its enter\<close>

text \<open>
  C5, as the code has it. When the number of a \<^verbatim>\<open>LEAVE\<close> matches no pending call,
  \<^verbatim>\<open>parse_leave\<close> returns no call and \<^verbatim>\<open>parse_call\<close> returns this null result to its
  caller: the result that it also gives at the end of the stream. The pending calls, the
  call counter and the warnings are as before.
\<close>

theorem unmatched_leave:
  assumes "EVENT_LEAVE d \<noteq> - 1" and "EVENT_LEAVE d \<noteq> EVENT_ENTER d"
    and "read_byte p = (EVENT_LEAVE d, p1)" and "read_uint p1 = Inr (n, p2)"
    and "\<forall>c \<in> set (calls p). no c \<noteq> ucast n"
  shows "\<exists>p'. parse_call d p = Inr (None, p') \<and> calls p' = calls p \<and>
    next_call_no p' = next_call_no p \<and> cerr p' = cerr p"
proof -
  from assms(3) have e1: "calls p1 = calls p" "next_call_no p1 = next_call_no p" "cerr p1 = cerr p"
    by (auto simp: read_byte_def split: prod.splits)
  from assms(4) have e2: "calls p2 = calls p1" "next_call_no p2 = next_call_no p1" "cerr p2 = cerr p1"
    by (auto simp: read_uint_def split: sum.splits)
  from assms(5) e1 e2 have "take_call (ucast n) (calls p2) = (None, calls p2)"
    by (simp add: take_call_None)
  with assms(4) e2 have "parse_leave d p1 = Inr (None, p2)"
    by (simp add: parse_leave_def)
  with assms(1-3) have "parse_call d p = Inr (None, p2)"
    by (simp add: parse_call.simps [of d p])
  with e1 e2 show ?thesis by simp
qed

theorem unmatched_leave_witness:
  "\<exists>p'. parse_call apitrace (new_Parser (stream stray_leave)) = Inr (None, p') \<and>
     calls p' = calls (new_Parser (stream stray_leave)) \<and>
     next_call_no p' = next_call_no (new_Parser (stream stray_leave)) \<and>
     cerr p' = cerr (new_Parser (stream stray_leave))"
proof -
  have "read_byte (new_Parser (stream stray_leave))
      = (EVENT_LEAVE apitrace, new_Parser \<lparr>pending = drop 1 stray_leave, consumed = 1\<rparr>)"
    and "read_uint (new_Parser \<lparr>pending = drop 1 stray_leave, consumed = 1\<rparr>)
      = Inr (5, new_Parser \<lparr>pending = drop 2 stray_leave, consumed = 2\<rparr>)"
    and "\<forall>c \<in> set (calls (new_Parser (stream stray_leave))). no c \<noteq> ucast (5 :: 64 word)"
    and "EVENT_LEAVE apitrace \<noteq> - 1" "EVENT_LEAVE apitrace \<noteq> EVENT_ENTER apitrace"
    by (simp_all add: stray_leave_def apitrace_def reader_defs)
  from unmatched_leave [OF this(4,5,1,2,3)] show ?thesis .
qed

text \<open>
  C5 as the specification states it fails on \<open>stray_leave\<close>. The events behind the stray
  \<^verbatim>\<open>LEAVE\<close> alone give the call \<open>foo(42)\<close>. With the stray \<^verbatim>\<open>LEAVE\<close> in front, the first
  \<^verbatim>\<open>parse_call\<close> returns the null result with 18 bytes still to come, and the second one
  takes the \<^verbatim>\<open>CALL_END\<close> of the stray \<^verbatim>\<open>LEAVE\<close> for an \<^verbatim>\<open>ENTER\<close>, reads to the end of the
  stream and returns the null result again: the call \<open>foo(42)\<close> is never delivered.
\<close>

theorem unmatched_leave_counterexample:
  "parse_call apitrace (new_Parser (stream (drop 3 stray_leave)))
     = Inr (Some foo42, entered [] 17 1 []) \<and>
   parse_call apitrace (new_Parser (stream stray_leave))
     = Inr (None, new_Parser \<lparr>pending = drop 2 stray_leave, consumed = 2\<rparr>) \<and>
   parse_call apitrace (new_Parser \<lparr>pending = drop 2 stray_leave, consumed = 2\<rparr>)
     = Inr (None, (new_Parser \<lparr>pending = [], consumed = 20\<rparr>)
         \<lparr>next_call_no := 1,
          functions := [Some \<lparr>function_id = 0, function_name = [], num_args = 3,
            arg_names = [[111, 111, 1, 1, 120, 1, 0, 4, 42, 0, 1, 0, 0], [], []]\<rparr>],
          m_callSigOffsets := {4}\<rparr>)"
  by (simp add: stray_leave_def entered_def foo42_def foo_def apitrace_def reader_defs value_defs
      call_defs Let_def)


subsection \<open>Calls come out in the order of their leaves\<close>

text \<open>
  C2. Two \<^verbatim>\<open>ENTER\<close> events put their calls A and B on the pending calls, with the numbers
  \<open>k\<close> and \<open>k + 1\<close> of the call counter, and two \<^verbatim>\<open>LEAVE\<close> events follow, the first with the
  number of the call X and the second with the number of the call Y. For \<^verbatim>\<open>LEAVE\<close>(B),
  \<^verbatim>\<open>LEAVE\<close>(A), the order in the specification, X is B and Y is A; for \<^verbatim>\<open>LEAVE\<close>(A), \<^verbatim>\<open>LEAVE\<close>(B) it
  is the other way round, and the call taken first is then not the last pending one. In both
  orders the first \<^verbatim>\<open>parse_call\<close> returns X and the second one returns Y: the number in the
  \<^verbatim>\<open>LEAVE\<close> selects the call, wherever it stands among the pending calls. Each call returned
  is the one that its \<^verbatim>\<open>ENTER\<close> built (with the arguments decoded there), completed by the
  details of its \<^verbatim>\<open>LEAVE\<close>, and between the two the other call stays pending. No pending
  call from before has one of the two numbers.
\<close>

theorem leave_order:
  assumes tags: "EVENT_ENTER d \<noteq> - 1" "EVENT_LEAVE d \<noteq> - 1" "EVENT_LEAVE d \<noteq> EVENT_ENTER d"
    and fresh: "\<forall>c \<in> set (calls p0). no c \<noteq> next_call_no p0 \<and> no c \<noteq> next_call_no p0 + 1"
    and enterA: "read_byte p0 = (EVENT_ENTER d, q0)" "parse_enter d q0 = Inr p1"
      "calls p1 = calls p0 @ [A]"
    and enterB: "read_byte p1 = (EVENT_ENTER d, q1)" "parse_enter d q1 = Inr p2"
      "calls p2 = calls p1 @ [B]"
    and order: "(X, Y) = (B, A) \<or> (X, Y) = (A, B)"
    and leaveX: "read_byte p2 = (EVENT_LEAVE d, q2)" "read_uint q2 = Inr (nX, r2)"
      "ucast nX = no X"
      "parse_call_details d X (r2\<lparr>calls := calls p0 @ [Y]\<rparr>) = Inr (True, X', p3)"
    and leaveY: "read_byte p3 = (EVENT_LEAVE d, q3)" "read_uint q3 = Inr (nY, r3)"
      "ucast nY = no Y"
      "parse_call_details d Y (r3\<lparr>calls := calls p0\<rparr>) = Inr (True, Y', p4)"
  shows "parse_call d p0 = Inr (Some X', p3) \<and> parse_call d p3 = Inr (Some Y', p4) \<and>
    no A = next_call_no p0 \<and> no B = next_call_no p0 + 1 \<and>
    no X' = no X \<and> sig X' = sig X \<and> no Y' = no Y \<and> sig Y' = sig Y \<and>
    calls p3 = calls p0 @ [Y] \<and> calls p4 = calls p0"
proof -
  note q0 = read_byte_adv [OF enterA(1)]
  from enterA(3) advances_calls [OF q0] have "calls p1 = calls q0 @ [A]" by simp
  from parse_enter_pushed [OF enterA(2) this] q0
  have nA: "no A = next_call_no p0" and n1: "next_call_no p1 = next_call_no p0 + 1"
    by (simp_all add: advances_def)
  note q1 = read_byte_adv [OF enterB(1)]
  from enterB(3) advances_calls [OF q1] have "calls p2 = calls q1 @ [B]" by simp
  from parse_enter_pushed [OF enterB(2) this] q1 n1
  have nB: "no B = next_call_no p0 + 1"
    by (simp_all add: advances_def)
  have diff: "no A \<noteq> no B" by (simp add: nA nB)
  from fresh nA nB have freshA: "\<forall>c \<in> set (calls p0). no c \<noteq> no A"
    and freshB: "\<forall>c \<in> set (calls p0). no c \<noteq> no B" by auto
  \<comment> \<open>the first \<^verbatim>\<open>parse_call\<close>: two enters, then the leave of \<open>X\<close>\<close>
  from read_byte_adv [OF leaveX(1)] read_uint_adv [OF leaveX(2)] enterA(3) enterB(3)
  have c2: "calls r2 = calls p0 @ [A, B]" by (simp add: advances_def)
  have tX: "take_call (no X) (calls r2) = (Some X, calls p0 @ [Y])"
    using order
  proof
    assume "(X, Y) = (B, A)"
    then have xy: "X = B" "Y = A" by simp_all
    from freshB diff have "\<forall>c \<in> set (calls p0 @ [A]). no c \<noteq> no B" by auto
    from take_call_first [OF this, of "[]"] c2 xy show ?thesis by simp
  next
    assume "(X, Y) = (A, B)"
    then have xy: "X = A" "Y = B" by simp_all
    from take_call_first [OF freshA, of "[B]"] c2 xy show ?thesis by simp
  qed
  with leaveX(2-4) have lX: "parse_leave d q2 = Inr (Some X', p3)"
    by (simp add: parse_leave_def)
  have "parse_call d p0 = parse_call d p1"
    using tags enterA(1,2) by (simp add: parse_call.simps [of d p0])
  also have "\<dots> = parse_call d p2"
    using tags enterB(1,2) by (simp add: parse_call.simps [of d p1])
  also have "\<dots> = Inr (Some X', p3)"
    using tags leaveX(1) lX by (simp add: parse_call.simps [of d p2])
  finally have first: "parse_call d p0 = Inr (Some X', p3)" .
  \<comment> \<open>the second \<^verbatim>\<open>parse_call\<close>: the leave of \<open>Y\<close>\<close>
  from parse_call_details_adv [OF leaveX(4)]
  have c3: "calls p3 = calls p0 @ [Y]" and keepX: "no X' = no X" "sig X' = sig X"
    by (simp_all add: advances_def)
  from read_byte_adv [OF leaveY(1)] read_uint_adv [OF leaveY(2)] c3
  have c4: "calls r3 = calls p0 @ Y # []" by (simp add: advances_def)
  from order freshA freshB have "\<forall>c \<in> set (calls p0). no c \<noteq> no Y" by auto
  from take_call_first [OF this, of "[]"] c4
  have "take_call (no Y) (calls r3) = (Some Y, calls p0)" by simp
  with leaveY(2-4) have lY: "parse_leave d q3 = Inr (Some Y', p4)"
    by (simp add: parse_leave_def)
  have second: "parse_call d p3 = Inr (Some Y', p4)"
    using tags leaveY(1) lY by (simp add: parse_call.simps [of d p3])
  from parse_call_details_adv [OF leaveY(4)]
  have "calls p4 = calls p0" and keepY: "no Y' = no Y" "sig Y' = sig Y"
    by (simp_all add: advances_def)
  with first second nA nB keepX c3 show ?thesis by simp
qed

theorem leave_order_witness:
  "parse_call apitrace (new_Parser (stream nested))
     = Inr (Some (foo7\<lparr>ret := Some (UInt 9)\<rparr>), entered [1, 0, 0] 27 2 [foo42]) \<and>
   parse_call apitrace (entered [1, 0, 0] 27 2 [foo42]) = Inr (Some foo42, entered [] 30 2 []) \<and>
   parse_call apitrace (new_Parser (stream crossed))
     = Inr (Some foo42, entered [1, 1, 2, 4, 9, 0] 24 2 [foo7]) \<and>
   parse_call apitrace (entered [1, 1, 2, 4, 9, 0] 24 2 [foo7])
     = Inr (Some (foo7\<lparr>ret := Some (UInt 9)\<rparr>), entered [] 30 2 [])"
proof -
  have tags: "EVENT_ENTER apitrace \<noteq> - 1" "EVENT_LEAVE apitrace \<noteq> - 1"
    "EVENT_LEAVE apitrace \<noteq> EVENT_ENTER apitrace"
    by (simp_all add: apitrace_def)
  have first_leave_last: "parse_call apitrace (new_Parser (stream nested))
     = Inr (Some (foo7\<lparr>ret := Some (UInt 9)\<rparr>), entered [1, 0, 0] 27 2 [foo42]) \<and>
   parse_call apitrace (entered [1, 0, 0] 27 2 [foo42]) = Inr (Some foo42, entered [] 30 2 [])"
  proof -
    let ?p0 = "new_Parser (stream nested)"
    let ?p1 = "entered (drop 14 nested) 14 1 [foo42]"
    let ?p2 = "entered (drop 21 nested) 21 2 [foo42, foo7]"
    let ?p3 = "entered [1, 0, 0] 27 2 [foo42]"
    have fresh: "\<forall>c \<in> set (calls ?p0). no c \<noteq> next_call_no ?p0 \<and> no c \<noteq> next_call_no ?p0 + 1"
      by (simp add: new_Parser_def)
    have enterA: "read_byte ?p0 = (EVENT_ENTER apitrace, new_Parser \<lparr>pending = drop 1 nested, consumed = 1\<rparr>)"
      "parse_enter apitrace (new_Parser \<lparr>pending = drop 1 nested, consumed = 1\<rparr>) = Inr ?p1"
      "calls ?p1 = calls ?p0 @ [foo42]"
      by (simp_all add: nested_def entered_def foo42_def foo_def apitrace_def reader_defs value_defs
          call_defs)
    have enterB: "read_byte ?p1 = (EVENT_ENTER apitrace, entered (drop 15 nested) 15 1 [foo42])"
      "parse_enter apitrace (entered (drop 15 nested) 15 1 [foo42]) = Inr ?p2"
      "calls ?p2 = calls ?p1 @ [foo7]"
      by (simp_all add: nested_def entered_def foo42_def foo7_def foo_def apitrace_def reader_defs
          value_defs call_defs)
    have order: "(foo7, foo42) = (foo7, foo42) \<or> (foo7, foo42) = (foo42, foo7)" by simp
    have leaveB: "read_byte ?p2 = (EVENT_LEAVE apitrace, entered (drop 22 nested) 22 2 [foo42, foo7])"
      "read_uint (entered (drop 22 nested) 22 2 [foo42, foo7])
        = Inr (1, entered (drop 23 nested) 23 2 [foo42, foo7])"
      "ucast (1 :: 64 word) = no foo7"
      "parse_call_details apitrace foo7
         ((entered (drop 23 nested) 23 2 [foo42, foo7])\<lparr>calls := calls ?p0 @ [foo42]\<rparr>)
        = Inr (True, foo7\<lparr>ret := Some (UInt 9)\<rparr>, ?p3)"
      by (simp_all add: nested_def entered_def foo42_def foo7_def foo_def apitrace_def reader_defs
          value_defs call_defs)
    have leaveA: "read_byte ?p3 = (EVENT_LEAVE apitrace, entered [0, 0] 28 2 [foo42])"
      "read_uint (entered [0, 0] 28 2 [foo42]) = Inr (0, entered [0] 29 2 [foo42])"
      "ucast (0 :: 64 word) = no foo42"
      "parse_call_details apitrace foo42 ((entered [0] 29 2 [foo42])\<lparr>calls := calls ?p0\<rparr>)
        = Inr (True, foo42, entered [] 30 2 [])"
      by (simp_all add: nested_def entered_def foo42_def foo7_def foo_def apitrace_def reader_defs
          value_defs call_defs)
    from leave_order [OF tags fresh enterA enterB order leaveB leaveA] show ?thesis by simp
  qed
  have first_leave_first: "parse_call apitrace (new_Parser (stream crossed))
     = Inr (Some foo42, entered [1, 1, 2, 4, 9, 0] 24 2 [foo7]) \<and>
   parse_call apitrace (entered [1, 1, 2, 4, 9, 0] 24 2 [foo7])
     = Inr (Some (foo7\<lparr>ret := Some (UInt 9)\<rparr>), entered [] 30 2 [])"
  proof -
    let ?p0 = "new_Parser (stream crossed)"
    let ?p1 = "entered (drop 14 crossed) 14 1 [foo42]"
    let ?p2 = "entered (drop 21 crossed) 21 2 [foo42, foo7]"
    let ?p3 = "entered [1, 1, 2, 4, 9, 0] 24 2 [foo7]"
    have fresh: "\<forall>c \<in> set (calls ?p0). no c \<noteq> next_call_no ?p0 \<and> no c \<noteq> next_call_no ?p0 + 1"
      by (simp add: new_Parser_def)
    have enterA: "read_byte ?p0 = (EVENT_ENTER apitrace, new_Parser \<lparr>pending = drop 1 crossed, consumed = 1\<rparr>)"
      "parse_enter apitrace (new_Parser \<lparr>pending = drop 1 crossed, consumed = 1\<rparr>) = Inr ?p1"
      "calls ?p1 = calls ?p0 @ [foo42]"
      by (simp_all add: crossed_def entered_def foo42_def foo_def apitrace_def reader_defs value_defs
          call_defs)
    have enterB: "read_byte ?p1 = (EVENT_ENTER apitrace, entered (drop 15 crossed) 15 1 [foo42])"
      "parse_enter apitrace (entered (drop 15 crossed) 15 1 [foo42]) = Inr ?p2"
      "calls ?p2 = calls ?p1 @ [foo7]"
      by (simp_all add: crossed_def entered_def foo42_def foo7_def foo_def apitrace_def reader_defs
          value_defs call_defs)
    have order: "(foo42, foo7) = (foo7, foo42) \<or> (foo42, foo7) = (foo42, foo7)" by simp
    have leaveA: "read_byte ?p2 = (EVENT_LEAVE apitrace, entered (drop 22 crossed) 22 2 [foo42, foo7])"
      "read_uint (entered (drop 22 crossed) 22 2 [foo42, foo7])
        = Inr (0, entered (drop 23 crossed) 23 2 [foo42, foo7])"
      "ucast (0 :: 64 word) = no foo42"
      "parse_call_details apitrace foo42
         ((entered (drop 23 crossed) 23 2 [foo42, foo7])\<lparr>calls := calls ?p0 @ [foo7]\<rparr>)
        = Inr (True, foo42, ?p3)"
      by (simp_all add: crossed_def entered_def foo42_def foo7_def foo_def apitrace_def reader_defs
          value_defs call_defs)
    have leaveB: "read_byte ?p3 = (EVENT_LEAVE apitrace, entered [1, 2, 4, 9, 0] 25 2 [foo7])"
      "read_uint (entered [1, 2, 4, 9, 0] 25 2 [foo7]) = Inr (1, entered [2, 4, 9, 0] 26 2 [foo7])"
      "ucast (1 :: 64 word) = no foo7"
      "parse_call_details apitrace foo7 ((entered [2, 4, 9, 0] 26 2 [foo7])\<lparr>calls := calls ?p0\<rparr>)
        = Inr (True, foo7\<lparr>ret := Some (UInt 9)\<rparr>, entered [] 30 2 [])"
      by (simp_all add: crossed_def entered_def foo42_def foo7_def foo_def apitrace_def reader_defs
          value_defs call_defs)
    from leave_order [OF tags fresh enterA enterB order leaveA leaveB] show ?thesis by simp
  qed
  from first_leave_last first_leave_first show ?thesis by simp
qed


subsection \<open>Call numbers\<close>

text \<open>
  C3, as the code has it. The call counter is a 32-bit \<^verbatim>\<open>unsigned\<close>. At an \<^verbatim>\<open>ENTER\<close> that
  \<open>n\<close> \<^verbatim>\<open>ENTER\<close> events precede, the counter is \<open>n\<close> modulo \<open>2^32\<close>; this is the number of the
  call allocated there, which is put on the pending calls unless its details stop at the
  end of the stream, and the counter goes up by one.
\<close>

theorem call_numbering:
  assumes "reach d n p" and "read_byte p = (EVENT_ENTER d, p1)" and "EVENT_ENTER d \<noteq> - 1"
    and "parse_enter d p1 = Inr p'"
  shows "unat (next_call_no p) = n mod 2 ^ 32 \<and> next_call_no p' = next_call_no p + 1 \<and>
    (calls p' = calls p \<or> (\<exists>c. calls p' = calls p @ [c] \<and> unat (no c) = n mod 2 ^ 32))"
proof -
  from reach_counter [OF assms(1)] have k: "unat (next_call_no p) = n mod 2 ^ 32"
    by (simp add: unat_of_nat)
  note a = read_byte_adv [OF assms(2)]
  from parse_enter_effect [OF assms(4)] a k show ?thesis
    by (auto simp: advances_def)
qed


theorem call_numbering_witness:
  "unat (next_call_no (entered (drop 14 nested) 14 1 [foo42])) = 1 mod 2 ^ 32 \<and>
   next_call_no (entered (drop 21 nested) 21 2 [foo42, foo7])
     = next_call_no (entered (drop 14 nested) 14 1 [foo42]) + 1 \<and>
   calls (entered (drop 21 nested) 21 2 [foo42, foo7])
     = calls (entered (drop 14 nested) 14 1 [foo42]) @ [foo7] \<and>
   unat (no foo7) = 1 mod 2 ^ 32"
proof -
  let ?p0 = "new_Parser (stream nested)"
  let ?p1 = "entered (drop 14 nested) 14 1 [foo42]"
  let ?p2 = "entered (drop 21 nested) 21 2 [foo42, foo7]"
  have enterA: "read_byte ?p0 = (EVENT_ENTER apitrace, new_Parser \<lparr>pending = drop 1 nested, consumed = 1\<rparr>)"
    "parse_enter apitrace (new_Parser \<lparr>pending = drop 1 nested, consumed = 1\<rparr>) = Inr ?p1"
    by (simp_all add: nested_def entered_def foo42_def foo_def apitrace_def reader_defs value_defs
        call_defs)
  have enterB: "read_byte ?p1 = (EVENT_ENTER apitrace, entered (drop 15 nested) 15 1 [foo42])"
    "parse_enter apitrace (entered (drop 15 nested) 15 1 [foo42]) = Inr ?p2"
    by (simp_all add: nested_def entered_def foo42_def foo7_def foo_def apitrace_def reader_defs
        value_defs call_defs)
  have tag: "EVENT_ENTER apitrace \<noteq> - 1" by (simp add: apitrace_def)
  have "reach apitrace 0 ?p0" by (rule reach.start)
  from reach.enter [OF this enterA(1) tag refl enterA(2)]
  have "reach apitrace (Suc 0) ?p1" .
  from call_numbering [OF this enterB(1) tag enterB(2)] show ?thesis
    by (simp add: entered_def foo7_def)
qed

text \<open>
  C3 as the specification states it, with the number of earlier \<^verbatim>\<open>ENTER\<close> events itself as
  the call number, fails at the \<^verbatim>\<open>ENTER\<close> that \<open>2^32\<close> others precede: the counter has wrapped
  and the call gets the number 0 again.
\<close>

lemma flood_start:
  "read_byte (new_Parser (stream (0 # 0 # 0 # 0 # 0 # r)))
     = (EVENT_ENTER apitrace, new_Parser \<lparr>pending = 0 # 0 # 0 # 0 # r, consumed = 1\<rparr>)"
  "parse_enter apitrace (new_Parser \<lparr>pending = 0 # 0 # 0 # 0 # r, consumed = 1\<rparr>)
     = Inr (flood 0 r)"
  by (simp_all add: flood_def anon_def apitrace_def reader_defs value_defs call_defs)

lemma flood_step:
  "read_byte (flood j (0 # 0 # 0 # r))
     = (EVENT_ENTER apitrace, (flood j (0 # 0 # r))\<lparr>file := \<lparr>pending = 0 # 0 # r, consumed = 6 + 3 * j\<rparr>\<rparr>)"
  "parse_enter apitrace ((flood j (0 # 0 # r))\<lparr>file := \<lparr>pending = 0 # 0 # r, consumed = 6 + 3 * j\<rparr>\<rparr>)
     = Inr (flood (Suc j) r)"
  by (simp_all add: flood_def anon_def apitrace_def reader_defs value_defs call_defs)

lemma flood_calls:
  "calls (flood (Suc j) r') = calls (flood j r) @ [new_Call anon (of_nat (Suc j))]"
  by (simp add: flood_def new_Parser_def)

lemma reach_flood: "reach apitrace (Suc j) (flood j r)"
proof (induction j arbitrary: r)
  case 0
  have tag: "EVENT_ENTER apitrace \<noteq> - 1" by (simp add: apitrace_def)
  from reach.enter [OF reach.start flood_start(1) tag refl flood_start(2)] show ?case .
next
  case (Suc j)
  have tag: "EVENT_ENTER apitrace \<noteq> - 1" by (simp add: apitrace_def)
  from reach.enter [OF Suc.IH flood_step(1) tag refl flood_step(2)] show ?case .
qed

theorem call_numbering_counterexample:
  "\<not> (\<forall>d n p p1 p' c. reach d n p \<longrightarrow> read_byte p = (EVENT_ENTER d, p1) \<longrightarrow>
      EVENT_ENTER d \<noteq> - 1 \<longrightarrow> parse_enter d p1 = Inr p' \<longrightarrow> calls p' = calls p @ [c] \<longrightarrow>
      unat (no c) = n)"
proof
  assume stated: "\<forall>d n p p1 p' c. reach d n p \<longrightarrow> read_byte p = (EVENT_ENTER d, p1) \<longrightarrow>
      EVENT_ENTER d \<noteq> - 1 \<longrightarrow> parse_enter d p1 = Inr p' \<longrightarrow> calls p' = calls p @ [c] \<longrightarrow>
      unat (no c) = n"
  let ?j = "2 ^ 32 - 1 :: nat"
  have tag: "EVENT_ENTER apitrace \<noteq> - 1" by (simp add: apitrace_def)
  have pushed: "calls (flood (Suc ?j) [])
      = calls (flood ?j [0, 0, 0]) @ [new_Call anon (of_nat (Suc ?j))]"
    by (rule flood_calls)
  from stated reach_flood [where j = ?j and r = "[0, 0, 0]"]
    flood_step [where j = ?j and r = "[]"] tag pushed
  have "unat (no (new_Call anon (of_nat (Suc ?j)))) = Suc ?j" by blast
  then show False by (simp add: new_Call_def)
qed


subsection \<open>References to signatures\<close>

text \<open>The entry of an id in one of the four tables.\<close>

definition by_id :: "'a option list \<Rightarrow> 64 word \<Rightarrow> 'a option" where
  "by_id tbl i = (if unat i < length tbl then tbl ! unat i else None)"

text \<open>
  The body of a definition, as the two branches under \<^verbatim>\<open>if (!sig || xWithSig)\<close> read it. For
  a function (lines 153 to 160 and 165 to 170 of \<^verbatim>\<open>parse_enter\<close>) and for a struct (lines 427
  to 434 and 439 to 443 of \<^verbatim>\<open>parse_struct\<close>) both branches read the name, the count and as many
  names, the count compared with an \<^verbatim>\<open>unsigned\<close> counter; the first branch makes the signature
  of them, the second one drops them.
\<close>

definition named_list ::
  "Parser \<Rightarrow> error + ((byte list \<times> 32 word \<times> byte list list) \<times> Parser)" where
  "named_list p =
     (case read_string p of
        Inl e \<Rightarrow> Inl e
      | Inr (name, p3) \<Rightarrow>
          (case read_uint p3 of
             Inl e \<Rightarrow> Inl e
           | Inr (n, p4) \<Rightarrow>
               (case read_strings (unat (ucast n :: 32 word)) p4 of
                  Inl e \<Rightarrow> Inl e
                | Inr (names, p5) \<Rightarrow> Inr ((name, ucast n, names), p5))))"

definition skip_named_list :: "Parser \<Rightarrow> error + Parser" where
  "skip_named_list p = (case named_list p of Inl e \<Rightarrow> Inl e | Inr (x, q) \<Rightarrow> Inr q)"

definition function_body :: "64 word \<Rightarrow> Parser \<Rightarrow> error + (FunctionSig \<times> Parser)" where
  "function_body id' p =
     (case named_list p of
        Inl e \<Rightarrow> Inl e
      | Inr ((name, n, names), q) \<Rightarrow>
          Inr (\<lparr>function_id = id', function_name = name, num_args = n, arg_names = names\<rparr>, q))"

definition struct_body :: "64 word \<Rightarrow> Parser \<Rightarrow> error + (StructSig \<times> Parser)" where
  "struct_body id' p =
     (case named_list p of
        Inl e \<Rightarrow> Inl e
      | Inr ((name, n, names), q) \<Rightarrow>
          Inr (\<lparr>struct_id = id', struct_name = name, num_members = n, member_names = names\<rparr>, q))"

text \<open>
  For an enum (lines 343 to 347 and 352 to 354 of \<^verbatim>\<open>parse_enum\<close>) both branches read the name
  and a value; the first branch calls \<^verbatim>\<open>toSInt\<close> through the pointer to the value.
\<close>

definition enum_definition ::
  "decls \<Rightarrow> Parser \<Rightarrow> error + ((byte list \<times> Value option) \<times> Parser)" where
  "enum_definition d p =
     (case read_string p of
        Inl e \<Rightarrow> Inl e
      | Inr (name, p3) \<Rightarrow>
          (case parse_value d p3 of
             Inl e \<Rightarrow> Inl e
           | Inr (v, p4) \<Rightarrow> Inr ((name, v), p4)))"

definition enum_body :: "decls \<Rightarrow> 64 word \<Rightarrow> Parser \<Rightarrow> error + (EnumSig \<times> Parser)" where
  "enum_body d id' p =
     (case enum_definition d p of
        Inl e \<Rightarrow> Inl e
      | Inr ((name, None), q) \<Rightarrow> Inl Null_dereference
      | Inr ((name, Some v), q) \<Rightarrow>
          (case toSInt d v of
             Inl e \<Rightarrow> Inl e
           | Inr n \<Rightarrow> Inr (\<lparr>enum_id = id', enum_name = name, enum_value = n\<rparr>, q)))"

definition skip_enum_body :: "decls \<Rightarrow> Parser \<Rightarrow> error + Parser" where
  "skip_enum_body d p = (case enum_definition d p of Inl e \<Rightarrow> Inl e | Inr (x, q) \<Rightarrow> Inr q)"

text \<open>
  For a bitmask (lines 369 to 379 and 384 to 388 of \<^verbatim>\<open>parse_bitmask\<close>) both branches read the
  count and as many pairs of a name and a value. The first branch walks an array of the
  count's length; the second one counts with an \<^verbatim>\<open>int\<close>, in which a count from \<open>2^31\<close> on is
  negative, so that no pair is read.
\<close>

definition bitmask_body :: "64 word \<Rightarrow> Parser \<Rightarrow> error + (BitmaskSig \<times> Parser)" where
  "bitmask_body id' p =
     (case read_uint p of
        Inl e \<Rightarrow> Inl e
      | Inr (n, p3) \<Rightarrow>
          (case read_flags (unat (ucast n :: 32 word)) True p3 of
             Inl e \<Rightarrow> Inl e
           | Inr (fs, p4) \<Rightarrow> Inr (\<lparr>bitmask_id = id', num_flags = ucast n, flags = fs\<rparr>, p4)))"

definition skip_bitmask_body :: "Parser \<Rightarrow> error + Parser" where
  "skip_bitmask_body p =
     (case read_uint p of
        Inl e \<Rightarrow> Inl e
      | Inr (n, p3) \<Rightarrow> skip_flags (nat (sint (ucast n :: 32 word))) p3)"

text \<open>
  The rule that a reference to a signature follows. \<open>tbl\<close> and \<open>seen_at\<close> are the table and the
  set of offsets of the kind, \<open>body\<close> and \<open>skip\<close> its two readers of a body, \<open>i\<close> is the id, \<open>p\<close>
  the parser in front of the id and \<open>p2\<close> the parser behind the id, with the table as
  \<^verbatim>\<open>lookup\<close> leaves it; \<open>s\<close> and \<open>p'\<close> are the signature and the parser that result.
  \<^item> The id is not bound: the body is read from \<open>p2\<close> to its end, the signature made of it is
    the result, it is the entry of the id from now on, and the offset behind the id is in
    the set.
  \<^item> The id is bound, and the offset behind the id is in the set: the body is read from \<open>p2\<close>
    to its end and dropped; the result is the entry of the id.
  \<^item> The id is bound, and the offset is not in the set: nothing is read, the parser stays as
    it is behind the id; the result is the entry of the id.
\<close>

definition reference_rule ::
  "(Parser \<Rightarrow> 's option list) \<Rightarrow> (Parser \<Rightarrow> nat set) \<Rightarrow>
   (Parser \<Rightarrow> error + ('s \<times> Parser)) \<Rightarrow> (Parser \<Rightarrow> error + Parser) \<Rightarrow>
   64 word \<Rightarrow> Parser \<Rightarrow> Parser \<Rightarrow> 's \<Rightarrow> Parser \<Rightarrow> bool" where
  "reference_rule tbl seen_at body skip i p p2 s p' =
     (case by_id (tbl p) i of
        None \<Rightarrow>
          (case body p2 of
             Inl e \<Rightarrow> False
           | Inr (s1, q) \<Rightarrow>
               s = s1 \<and> file p' = file q \<and> by_id (tbl p') i = Some s1 \<and>
               currentOffset (file p2) \<in> seen_at p')
      | Some s0 \<Rightarrow>
          s = s0 \<and>
          (if currentOffset (file p2) \<in> seen_at p then skip p2 = Inr p' else p' = p2))"

text \<open>
  The reader that drops a body ends where the reader that keeps it ends, for the signatures
  that \<open>ok\<close> admits.
\<close>

definition skips_body ::
  "('s \<Rightarrow> bool) \<Rightarrow> (Parser \<Rightarrow> error + ('s \<times> Parser)) \<Rightarrow> (Parser \<Rightarrow> error + Parser) \<Rightarrow>
   Parser \<Rightarrow> bool" where
  "skips_body ok body skip r =
     (case body r of
        Inl e \<Rightarrow> True
      | Inr (s1, q) \<Rightarrow>
          ok s1 \<longrightarrow> (case skip r of Inl e \<Rightarrow> False | Inr q' \<Rightarrow> file q' = file q))"

lemma lookup_by_id: "lookup tbl i = (sg, tbl') \<Longrightarrow> sg = by_id tbl i"
  by (auto simp: lookup_def by_id_def split: if_splits)

lemma read_uint_tables:
  assumes "read_uint p = Inr (i, p1)"
  shows "functions p1 = functions p" "structs p1 = structs p" "enums p1 = enums p"
    "bitmasks p1 = bitmasks p" "m_callSigOffsets p1 = m_callSigOffsets p"
    "m_structSigOffsets p1 = m_structSigOffsets p" "m_enumSigOffsets p1 = m_enumSigOffsets p"
    "m_bitmaskSigOffsets p1 = m_bitmaskSigOffsets p"
  using assms by (auto simp: read_uint_def split: sum.splits)

lemma assign_by_id:
  "assign tbl (unat i) (Some s) = Inr tbl' \<Longrightarrow> by_id tbl' i = Some s"
  by (auto simp: assign_def by_id_def split: if_splits)

lemma function_reference:
  assumes ru: "read_uint p = Inr (i, p1)" and res: "function_signature p = Inr (s, p')"
  shows "reference_rule functions m_callSigOffsets (function_body i) skip_named_list i p
    (p1\<lparr>functions := snd (lookup (functions p1) i)\<rparr>) s p'"
proof -
  obtain sg tbl where lk: "lookup (functions p1) i = (sg, tbl)"
    by (cases "lookup (functions p1) i")
  from lookup_by_id [OF lk] read_uint_tables(1) [OF ru]
  have sg: "by_id (functions p) i = sg" by simp
  define p2 where "p2 = p1\<lparr>functions := tbl\<rparr>"
  have off: "currentOffset (file p2) = currentOffset (file p1)"
    and seen: "m_callSigOffsets p2 = m_callSigOffsets p"
    by (simp_all add: p2_def read_uint_tables(5) [OF ru])
  note run = res [unfolded function_signature_def ru, simplified, unfolded lk, simplified,
      folded p2_def]
  have goal: "reference_rule functions m_callSigOffsets (function_body i) skip_named_list i p p2 s p'"
  proof (cases sg)
    case None
    with run obtain name p3 n p4 names p5 tbl' where
      b: "read_string p2 = Inr (name, p3)" "read_uint p3 = Inr (n, p4)"
        "read_strings (unat (ucast n :: 32 word)) p4 = Inr (names, p5)"
      and a: "assign (functions p5) (unat i) (Some s) = Inr tbl'"
      and s: "s = \<lparr>function_id = i, function_name = name, num_args = ucast n, arg_names = names\<rparr>"
      and d: "p' = p5\<lparr>functions := tbl',
        m_callSigOffsets := insert (currentOffset (file p1)) (m_callSigOffsets p5)\<rparr>"
      by (auto simp: Let_def split: sum.splits)
    from b s have "function_body i p2 = Inr (s, p5)"
      by (simp add: function_body_def named_list_def)
    with None sg assign_by_id [OF a] d off show ?thesis
      by (simp add: reference_rule_def)
  next
    case (Some s0)
    show ?thesis
    proof (cases "currentOffset (file p1) \<in> m_callSigOffsets p")
      case True
      with seen have "callWithSignature p2 (currentOffset (file p1))"
        by (simp add: callWithSignature_def)
      with run Some obtain name p3 n p4 names where
        b: "read_string p2 = Inr (name, p3)" "read_uint p3 = Inr (n, p4)"
          "read_strings (unat (ucast n :: 32 word)) p4 = Inr (names, p')"
        and e: "s = s0"
        by (auto simp: Let_def split: sum.splits)
      from b have "skip_named_list p2 = Inr p'"
        by (simp add: skip_named_list_def named_list_def)
      with Some sg True e off show ?thesis by (simp add: reference_rule_def)
    next
      case False
      with seen have "\<not> callWithSignature p2 (currentOffset (file p1))"
        by (simp add: callWithSignature_def)
      with run Some have "s = s0" "p' = p2" by (simp_all add: Let_def)
      with Some sg False off show ?thesis by (simp add: reference_rule_def)
    qed
  qed
  then show ?thesis by (simp add: p2_def lk)
qed

lemma struct_reference:
  assumes ru: "read_uint p = Inr (i, p1)" and res: "struct_signature p = Inr (s, p')"
  shows "reference_rule structs m_structSigOffsets (struct_body i) skip_named_list i p
    (p1\<lparr>structs := snd (lookup (structs p1) i)\<rparr>) s p'"
proof -
  obtain sg tbl where lk: "lookup (structs p1) i = (sg, tbl)"
    by (cases "lookup (structs p1) i")
  from lookup_by_id [OF lk] read_uint_tables(2) [OF ru]
  have sg: "by_id (structs p) i = sg" by simp
  define p2 where "p2 = p1\<lparr>structs := tbl\<rparr>"
  have off: "currentOffset (file p2) = currentOffset (file p1)"
    and seen: "m_structSigOffsets p2 = m_structSigOffsets p"
    by (simp_all add: p2_def read_uint_tables(6) [OF ru])
  note run = res [unfolded struct_signature_def ru, simplified, unfolded lk, simplified,
      folded p2_def]
  have goal: "reference_rule structs m_structSigOffsets (struct_body i) skip_named_list i p p2 s p'"
  proof (cases sg)
    case None
    with run obtain name p3 n p4 names p5 tbl' where
      b: "read_string p2 = Inr (name, p3)" "read_uint p3 = Inr (n, p4)"
        "read_strings (unat (ucast n :: 32 word)) p4 = Inr (names, p5)"
      and a: "assign (structs p5) (unat i) (Some s) = Inr tbl'"
      and s: "s = \<lparr>struct_id = i, struct_name = name, num_members = ucast n, member_names = names\<rparr>"
      and d: "p' = p5\<lparr>structs := tbl',
        m_structSigOffsets := insert (currentOffset (file p1)) (m_structSigOffsets p5)\<rparr>"
      by (auto simp: Let_def split: sum.splits)
    from b s have "struct_body i p2 = Inr (s, p5)"
      by (simp add: struct_body_def named_list_def)
    with None sg assign_by_id [OF a] d off show ?thesis
      by (simp add: reference_rule_def)
  next
    case (Some s0)
    show ?thesis
    proof (cases "currentOffset (file p1) \<in> m_structSigOffsets p")
      case True
      with seen have "structWithSignature p2 (currentOffset (file p1))"
        by (simp add: structWithSignature_def)
      with run Some obtain name p3 n p4 names where
        b: "read_string p2 = Inr (name, p3)" "read_uint p3 = Inr (n, p4)"
          "read_strings (unat (ucast n :: 32 word)) p4 = Inr (names, p')"
        and e: "s = s0"
        by (auto simp: Let_def split: sum.splits)
      from b have "skip_named_list p2 = Inr p'"
        by (simp add: skip_named_list_def named_list_def)
      with Some sg True e off show ?thesis by (simp add: reference_rule_def)
    next
      case False
      with seen have "\<not> structWithSignature p2 (currentOffset (file p1))"
        by (simp add: structWithSignature_def)
      with run Some have "s = s0" "p' = p2" by (simp_all add: Let_def)
      with Some sg False off show ?thesis by (simp add: reference_rule_def)
    qed
  qed
  then show ?thesis by (simp add: p2_def lk)
qed

lemma enum_reference:
  assumes ru: "read_uint p = Inr (i, p1)" and res: "parse_enum d p = Inr (Enum s, p')"
  shows "reference_rule enums m_enumSigOffsets (enum_body d i) (skip_enum_body d) i p
    (p1\<lparr>enums := snd (lookup (enums p1) i)\<rparr>) s p'"
proof -
  obtain sg tbl where lk: "lookup (enums p1) i = (sg, tbl)"
    by (cases "lookup (enums p1) i")
  from lookup_by_id [OF lk] read_uint_tables(3) [OF ru]
  have sg: "by_id (enums p) i = sg" by simp
  define p2 where "p2 = p1\<lparr>enums := tbl\<rparr>"
  have off: "currentOffset (file p2) = currentOffset (file p1)"
    and seen: "m_enumSigOffsets p2 = m_enumSigOffsets p"
    by (simp_all add: p2_def read_uint_tables(7) [OF ru])
  note run = res [unfolded parse_enum.simps [of d p] ru, simplified, unfolded lk, simplified,
      folded p2_def]
  have goal: "reference_rule enums m_enumSigOffsets (enum_body d i) (skip_enum_body d) i p p2 s p'"
  proof (cases sg)
    case None
    with run obtain name p3 v p4 n tbl' where
      b: "read_string p2 = Inr (name, p3)" "parse_value d p3 = Inr (Some v, p4)"
        "toSInt d v = Inr n"
      and a: "assign (enums p4) (unat i) (Some s) = Inr tbl'"
      and s: "s = \<lparr>enum_id = i, enum_name = name, enum_value = n\<rparr>"
      and d: "p' = p4\<lparr>enums := tbl',
        m_enumSigOffsets := insert (currentOffset (file p1)) (m_enumSigOffsets p4)\<rparr>"
      by (auto simp: Let_def split: sum.splits option.splits)
    from b s have "enum_body d i p2 = Inr (s, p4)"
      by (simp add: enum_body_def enum_definition_def)
    with None sg assign_by_id [OF a] d off show ?thesis
      by (simp add: reference_rule_def)
  next
    case (Some s0)
    show ?thesis
    proof (cases "currentOffset (file p1) \<in> m_enumSigOffsets p")
      case True
      with seen have "enumWithSignature p2 (currentOffset (file p1))"
        by (simp add: enumWithSignature_def)
      with run Some obtain name p3 v where
        b: "read_string p2 = Inr (name, p3)" "parse_value d p3 = Inr (v, p')"
        and e: "s = s0"
        by (auto simp: Let_def split: sum.splits)
      from b have "skip_enum_body d p2 = Inr p'"
        by (simp add: skip_enum_body_def enum_definition_def)
      with Some sg True e off show ?thesis by (simp add: reference_rule_def)
    next
      case False
      with seen have "\<not> enumWithSignature p2 (currentOffset (file p1))"
        by (simp add: enumWithSignature_def)
      with run Some have "s = s0" "p' = p2" by (simp_all add: Let_def)
      with Some sg False off show ?thesis by (simp add: reference_rule_def)
    qed
  qed
  then show ?thesis by (simp add: p2_def lk)
qed

lemma bitmask_reference:
  assumes ru: "read_uint p = Inr (i, p1)" and res: "bitmask_signature p = Inr (s, p')"
  shows "reference_rule bitmasks m_bitmaskSigOffsets (bitmask_body i) skip_bitmask_body i p
    (p1\<lparr>bitmasks := snd (lookup (bitmasks p1) i)\<rparr>) s p'"
proof -
  obtain sg tbl where lk: "lookup (bitmasks p1) i = (sg, tbl)"
    by (cases "lookup (bitmasks p1) i")
  from lookup_by_id [OF lk] read_uint_tables(4) [OF ru]
  have sg: "by_id (bitmasks p) i = sg" by simp
  define p2 where "p2 = p1\<lparr>bitmasks := tbl\<rparr>"
  have off: "currentOffset (file p2) = currentOffset (file p1)"
    and seen: "m_bitmaskSigOffsets p2 = m_bitmaskSigOffsets p"
    by (simp_all add: p2_def read_uint_tables(8) [OF ru])
  note run = res [unfolded bitmask_signature_def ru, simplified, unfolded lk, simplified,
      folded p2_def]
  have goal: "reference_rule bitmasks m_bitmaskSigOffsets (bitmask_body i) skip_bitmask_body i p p2 s p'"
  proof (cases sg)
    case None
    with run obtain n p3 fs p4 tbl' where
      b: "read_uint p2 = Inr (n, p3)"
        "read_flags (unat (ucast n :: 32 word)) True p3 = Inr (fs, p4)"
      and a: "assign (bitmasks p4) (unat i) (Some s) = Inr tbl'"
      and s: "s = \<lparr>bitmask_id = i, num_flags = ucast n, flags = fs\<rparr>"
      and d: "p' = p4\<lparr>bitmasks := tbl',
        m_bitmaskSigOffsets := insert (currentOffset (file p1)) (m_bitmaskSigOffsets p4)\<rparr>"
      by (auto simp: Let_def split: sum.splits)
    from b s have "bitmask_body i p2 = Inr (s, p4)"
      by (simp add: bitmask_body_def)
    with None sg assign_by_id [OF a] d off show ?thesis
      by (simp add: reference_rule_def)
  next
    case (Some s0)
    show ?thesis
    proof (cases "currentOffset (file p1) \<in> m_bitmaskSigOffsets p")
      case True
      with seen have "bitmaskWithSignature p2 (currentOffset (file p1))"
        by (simp add: bitmaskWithSignature_def)
      with run Some obtain n p3 where
        b: "read_uint p2 = Inr (n, p3)"
          "skip_flags (nat (sint (ucast n :: 32 word))) p3 = Inr p'"
        and e: "s = s0"
        by (auto simp: Let_def split: sum.splits)
      from b have "skip_bitmask_body p2 = Inr p'"
        by (simp add: skip_bitmask_body_def)
      with Some sg True e off show ?thesis by (simp add: reference_rule_def)
    next
      case False
      with seen have "\<not> bitmaskWithSignature p2 (currentOffset (file p1))"
        by (simp add: bitmaskWithSignature_def)
      with run Some have "s = s0" "p' = p2" by (simp_all add: Let_def)
      with Some sg False off show ?thesis by (simp add: reference_rule_def)
    qed
  qed
  then show ?thesis by (simp add: p2_def lk)
qed

lemma read_uint_same_file:
  assumes "read_uint p = Inr (v, q)" and "file p0 = file p"
  shows "\<exists>q0. read_uint p0 = Inr (v, q0) \<and> file q0 = file q"
  using assms by (auto simp: read_uint_def split: sum.splits)

lemma read_string_same_file:
  assumes "read_string p = Inr (s, q)" and "file p0 = file p"
  shows "\<exists>q0. read_string p0 = Inr (s, q0) \<and> file q0 = file q"
proof -
  from assms(1) obtain len p1 where ru: "read_uint p = Inr (len, p1)"
    by (auto simp: read_string_def split: sum.splits)
  from read_uint_same_file [OF ru assms(2)] obtain q1 where
    r0: "read_uint p0 = Inr (len, q1)" and f: "file q1 = file p1" by blast
  from assms(1) ru r0 f show ?thesis
    by (auto simp: read_string_def split: if_splits prod.splits)
qed

lemma skip_flags_same_file:
  "read_flags k first p = Inr (fs, q) \<Longrightarrow> file p0 = file p \<Longrightarrow>
     \<exists>q0. skip_flags k p0 = Inr q0 \<and> file q0 = file q"
proof (induction k arbitrary: first p p0 fs q)
  case 0
  then show ?case by simp
next
  case (Suc k)
  from Suc.prems(1) obtain name p1 v p2 fs' where
    a: "read_string p = Inr (name, p1)" and b: "read_uint p1 = Inr (v, p2)"
    and c: "read_flags k False
      (if v = 0 \<and> \<not> first then p2\<lparr>cerr := cerr p2 @ [Bitmask_zero_not_first name]\<rparr> else p2)
      = Inr (fs', q)"
    by (auto simp: Let_def split: sum.splits)
  from read_string_same_file [OF a Suc.prems(2)] obtain q1 where
    a0: "read_string p0 = Inr (name, q1)" and f1: "file q1 = file p1" by blast
  from read_uint_same_file [OF b f1] obtain q2 where
    b0: "read_uint q1 = Inr (v, q2)" and f2: "file q2 = file p2" by blast
  from f2 have "file q2 = file (if v = 0 \<and> \<not> first
      then p2\<lparr>cerr := cerr p2 @ [Bitmask_zero_not_first name]\<rparr> else p2)" by simp
  from Suc.IH [OF c this] a0 b0 show ?case by simp
qed

lemma nat_sint_unat:
  assumes "0 \<le> sint (w :: 32 word)"
  shows "nat (sint w) = unat w"
proof -
  have "sint w < 2 ^ 32" using sint_less [of w] by simp
  with assms have "take_bit 32 (sint w) = sint w" by (simp add: take_bit_int_eq_self)
  with uint_sint [of w] have "uint w = sint w" by simp
  then show ?thesis by (simp add: unat_eq_nat_uint)
qed

lemma named_list_skipped:
  "skips_body (\<lambda>s. True) (function_body i) skip_named_list r"
  "skips_body (\<lambda>s. True) (struct_body i) skip_named_list r"
  by (auto simp: skips_body_def function_body_def struct_body_def skip_named_list_def
      split: sum.splits)

lemma enum_skipped: "skips_body (\<lambda>s. True) (enum_body d i) (skip_enum_body d) r"
  by (auto simp: skips_body_def enum_body_def skip_enum_body_def split: sum.splits option.splits)

lemma bitmask_skipped:
  "skips_body (\<lambda>s. 0 \<le> sint (num_flags s)) (bitmask_body i) skip_bitmask_body r"
proof (cases "bitmask_body i r")
  case (Inl e)
  then show ?thesis by (simp add: skips_body_def)
next
  case (Inr x)
  then obtain s1 q where x: "bitmask_body i r = Inr (s1, q)" by (cases x) auto
  then obtain n p3 fs where
    a: "read_uint r = Inr (n, p3)"
    and b: "read_flags (unat (ucast n :: 32 word)) True p3 = Inr (fs, q)"
    and s1: "num_flags s1 = ucast n"
    by (auto simp: bitmask_body_def split: sum.splits)
  show ?thesis
  proof (cases "0 \<le> sint (num_flags s1)")
    case True
    then have "nat (sint (ucast n :: 32 word)) = unat (ucast n :: 32 word)"
      by (simp add: s1 nat_sint_unat)
    with skip_flags_same_file [OF b refl] a x show ?thesis
      by (auto simp: skips_body_def skip_bitmask_body_def)
  next
    case False
    with x show ?thesis by (simp add: skips_body_def)
  qed
qed

text \<open>
  C1, as the code has it. For functions (at \<^verbatim>\<open>ENTER\<close>), structs, enums and bitmasks alike:
  the whole body of a definition is read from the stream if and only if the id is not yet
  bound or the offset behind the id \<^emph>\<open>is\<close> in the set of offsets of the table (where a
  definition has been parsed before). Otherwise, with the id bound and the offset not in the
  set, nothing is read and the entry of the table is the signature used. A bound id always
  gives the entry of the table, also when a body is read and dropped; for an id that is not
  bound the signature read is the result and the new entry. What is dropped for a bound id
  is what a definition takes in the stream: the dropping reader ends where the keeping
  reader ends (for a bitmask when the count of flags is below \<open>2^31\<close>).
\<close>

theorem signature_reference:
  assumes "read_uint p = Inr (i, p1)"
  shows
    "(function_signature p = Inr (fs, pf) \<longrightarrow>
        reference_rule functions m_callSigOffsets (function_body i) skip_named_list i p
          (p1\<lparr>functions := snd (lookup (functions p1) i)\<rparr>) fs pf) \<and>
     (struct_signature p = Inr (ss, ps) \<longrightarrow>
        reference_rule structs m_structSigOffsets (struct_body i) skip_named_list i p
          (p1\<lparr>structs := snd (lookup (structs p1) i)\<rparr>) ss ps) \<and>
     (parse_enum d p = Inr (Enum es, pe) \<longrightarrow>
        reference_rule enums m_enumSigOffsets (enum_body d i) (skip_enum_body d) i p
          (p1\<lparr>enums := snd (lookup (enums p1) i)\<rparr>) es pe) \<and>
     (bitmask_signature p = Inr (bs, pb) \<longrightarrow>
        reference_rule bitmasks m_bitmaskSigOffsets (bitmask_body i) skip_bitmask_body i p
          (p1\<lparr>bitmasks := snd (lookup (bitmasks p1) i)\<rparr>) bs pb) \<and>
     skips_body (\<lambda>s. True) (function_body i) skip_named_list r \<and>
     skips_body (\<lambda>s. True) (struct_body i) skip_named_list r \<and>
     skips_body (\<lambda>s. True) (enum_body d i) (skip_enum_body d) r \<and>
     skips_body (\<lambda>s. 0 \<le> sint (num_flags s)) (bitmask_body i) skip_bitmask_body r"
  using function_reference [OF assms] struct_reference [OF assms] enum_reference [OF assms]
    bitmask_reference [OF assms] named_list_skipped enum_skipped bitmask_skipped
  by blast

theorem signature_reference_witness:
  "reference_rule functions m_callSigOffsets (function_body 0) skip_named_list 0
     (known [0, 1, 120, 0, 0] 12)
     ((known [1, 120, 0, 0] 13)\<lparr>functions := snd (lookup (functions (known [1, 120, 0, 0] 13)) 0)\<rparr>)
     foo0 (known [1, 120, 0, 0] 13) \<and>
   reference_rule functions m_callSigOffsets (function_body 0) skip_named_list 0
     (known [0, 1, 120, 0, 0] 1)
     ((known [1, 120, 0, 0] 2)\<lparr>functions := snd (lookup (functions (known [1, 120, 0, 0] 2)) 0)\<rparr>)
     foo0 (known [0] 5) \<and>
   reference_rule structs m_structSigOffsets (struct_body 0) skip_named_list 0
     (known [0, 1, 120, 0, 0] 1)
     ((known [1, 120, 0, 0] 2)\<lparr>structs := snd (lookup (structs (known [1, 120, 0, 0] 2)) 0)\<rparr>)
     \<lparr>struct_id = 0, struct_name = [120], num_members = 0, member_names = []\<rparr>
     ((known [0] 5)\<lparr>structs := [Some \<lparr>struct_id = 0, struct_name = [120], num_members = 0,
        member_names = []\<rparr>], m_structSigOffsets := {2}\<rparr>) \<and>
   reference_rule enums m_enumSigOffsets (enum_body apitrace 0) (skip_enum_body apitrace) 0
     (known [0, 1, 120, 0, 0] 1)
     ((known [1, 120, 0, 0] 2)\<lparr>enums := snd (lookup (enums (known [1, 120, 0, 0] 2)) 0)\<rparr>)
     \<lparr>enum_id = 0, enum_name = [120], enum_value = 0\<rparr>
     ((known [0] 5)\<lparr>enums := [Some \<lparr>enum_id = 0, enum_name = [120], enum_value = 0\<rparr>],
        m_enumSigOffsets := {2}\<rparr>) \<and>
   reference_rule bitmasks m_bitmaskSigOffsets (bitmask_body 0) skip_bitmask_body 0
     (known [0, 1, 120, 0, 0] 1)
     ((known [1, 120, 0, 0] 2)\<lparr>bitmasks := snd (lookup (bitmasks (known [1, 120, 0, 0] 2)) 0)\<rparr>)
     \<lparr>bitmask_id = 0, num_flags = 1, flags = [\<lparr>flag_name = [0, 0], flag_value = 0\<rparr>]\<rparr>
     ((known [] 6)\<lparr>bitmasks := [Some \<lparr>bitmask_id = 0, num_flags = 1,
        flags = [\<lparr>flag_name = [0, 0], flag_value = 0\<rparr>]\<rparr>], m_bitmaskSigOffsets := {2}\<rparr>) \<and>
   skips_body (\<lambda>s. True) (function_body 0) skip_named_list (known [1, 120, 0, 0] 2) \<and>
   skips_body (\<lambda>s. True) (struct_body 0) skip_named_list (known [1, 120, 0, 0] 2) \<and>
   skips_body (\<lambda>s. True) (enum_body apitrace 0) (skip_enum_body apitrace)
     (known [1, 120, 0, 0] 2) \<and>
   skips_body (\<lambda>s. 0 \<le> sint (num_flags s)) (bitmask_body 0) skip_bitmask_body
     (known [1, 120, 0, 0] 2)"
proof -
  let ?far = "known [0, 1, 120, 0, 0] 12" and ?p = "known [0, 1, 120, 0, 0] 1"
  have far: "read_uint ?far = Inr (0, known [1, 120, 0, 0] 13)"
    and ru: "read_uint ?p = Inr (0, known [1, 120, 0, 0] 2)"
    by (simp_all add: known_def reader_defs)
  have unseen: "function_signature ?far = Inr (foo0, known [1, 120, 0, 0] 13)"
    by (simp add: known_def foo0_def reader_defs value_defs call_defs)
  have seen: "function_signature ?p = Inr (foo0, known [0] 5)"
    and "struct_signature ?p
      = Inr (\<lparr>struct_id = 0, struct_name = [120], num_members = 0, member_names = []\<rparr>,
          (known [0] 5)\<lparr>structs := [Some \<lparr>struct_id = 0, struct_name = [120], num_members = 0,
            member_names = []\<rparr>], m_structSigOffsets := {2}\<rparr>)"
    and "parse_enum apitrace ?p
      = Inr (Enum \<lparr>enum_id = 0, enum_name = [120], enum_value = 0\<rparr>,
          (known [0] 5)\<lparr>enums := [Some \<lparr>enum_id = 0, enum_name = [120], enum_value = 0\<rparr>],
            m_enumSigOffsets := {2}\<rparr>)"
    and "bitmask_signature ?p
      = Inr (\<lparr>bitmask_id = 0, num_flags = 1, flags = [\<lparr>flag_name = [0, 0], flag_value = 0\<rparr>]\<rparr>,
          (known [] 6)\<lparr>bitmasks := [Some \<lparr>bitmask_id = 0, num_flags = 1,
            flags = [\<lparr>flag_name = [0, 0], flag_value = 0\<rparr>]\<rparr>], m_bitmaskSigOffsets := {2}\<rparr>)"
    by (simp_all add: known_def foo0_def apitrace_def reader_defs value_defs call_defs)
  with signature_reference [OF ru, where d = apitrace and r = "known [1, 120, 0, 0] 2"]
    signature_reference [OF far, where d = apitrace] unseen
  show ?thesis by blast
qed

text \<open>
  C1 as the specification states it, with a body for a bound id at an offset that is
  \<^emph>\<open>not\<close> in the set, fails on the scenario S5 of the specification itself. At the second
  \<^verbatim>\<open>ENTER\<close> the id 0 is bound and the offset 13 is not in the set \<open>{2}\<close>, the body of the
  signature follows in the stream, and \<^verbatim>\<open>parse_enter\<close> reads none of it: the reference ends
  right behind the id. The length byte 3 of the name is then taken for a call detail, and
  the process exits.
\<close>

theorem signature_reference_counterexample:
  "parse_call apitrace (new_Parser (stream reemitted))
     = Inr (Some (new_Call foo0 0), known (drop 11 reemitted) 11) \<and>
   read_byte (known (drop 11 reemitted) 11)
     = (EVENT_ENTER apitrace, known (drop 12 reemitted) 12) \<and>
   read_uint (known (drop 12 reemitted) 12) = Inr (0, known (drop 13 reemitted) 13) \<and>
   by_id (functions (known (drop 13 reemitted) 13)) 0 = Some foo0 \<and>
   currentOffset (file (known (drop 13 reemitted) 13))
     \<notin> m_callSigOffsets (known (drop 13 reemitted) 13) \<and>
   pending (file (known (drop 13 reemitted) 13)) = [3, 102, 111, 111, 0, 0, 1, 1, 0] \<and>
   function_signature (known (drop 12 reemitted) 12)
     = Inr (foo0, known (drop 13 reemitted) 13) \<and>
   parse_call apitrace (known (drop 11 reemitted) 11) = Inl (Unknown_call_detail 3)"
  by (simp add: reemitted_def known_def foo0_def by_id_def apitrace_def reader_defs
      value_defs call_defs)

subsection \<open>Doubles\<close>



subsection \<open>The end of the stream inside an enum\<close>

text \<open>
  C6 fails on the code when the stream ends inside the definition of an enum. On
  \<open>cut_enum\<close> the id of the enum is read as 0 at the end of the stream, the id is not
  bound, the name is read as empty, \<^verbatim>\<open>parse_value\<close> returns the null pointer, and
  \<^verbatim>\<open>parse_enum\<close> calls \<^verbatim>\<open>toSInt\<close> through it. The call in progress is not discarded in an
  orderly way and \<^verbatim>\<open>parse_call\<close> returns nothing.
\<close>

theorem eof_inside_enum:
  "parse_call apitrace (new_Parser (stream cut_enum)) = Inl Null_dereference"
  by (simp add: cut_enum_def apitrace_def reader_defs value_defs call_defs)

end
